theory Spec2Isabelle
  imports Complex_Main "HOL-Library.Word"
begin

section \<open>The dice game: a shallow embedding of dice_game.js\<close>

text \<open>
  The script validates the dice given on the command line, then plays a game in which
  every random choice is made by a commit-reveal exchange (\<open>fairRandom\<close>) between the
  computer and the user. JavaScript numbers that hold integers are modelled as \<open>int\<close>;
  \<open>NaN\<close>, where the code can meet it, is written out as \<open>None\<close> or as an explicit
  guard. All the sums the script computes stay far below \<open>2 ^ 53\<close>, where doubles are
  exact.

  The repository holds a second copy of the script. It differs in taking the secret
  from \<open>crypto.randomInt\<close> of the platform instead of \<open>secureRandomInt\<close>, in
  writing the loop for the computer's die as \<open>do ... while\<close>, and in the wording of
  its messages; it has no \<open>compareDice\<close>. The embedding follows \<open>dice_game.js\<close>.
\<close>

subsection \<open>Numbers\<close>

text \<open>
  The remainder operator \<open>a % b\<close> of JavaScript on integers: the result has the sign of
  the dividend. For \<open>b = 0\<close> JavaScript gives \<open>NaN\<close>; every use below guards that case.
\<close>

definition js_rem :: "int \<Rightarrow> int \<Rightarrow> int" where
  "js_rem a b = sgn a * (\<bar>a\<bar> mod \<bar>b\<bar>)"

text \<open>Line 61 of \<open>fairRandom\<close>: \<open>(compNum + userNum) % max\<close>.\<close>

definition combine :: "int \<Rightarrow> int \<Rightarrow> int \<Rightarrow> int" where
  "combine compNum userNum mx = js_rem (compNum + userNum) mx"

subsection \<open>Comparing dice\<close>

text \<open>
  \<open>compareDice\<close> runs two nested \<open>for ... of\<close> loops over the faces, with the counters
  \<open>win\<close> and \<open>lose\<close>; the loops are folds over the pair of counters.
\<close>

definition countPair :: "int \<Rightarrow> int \<Rightarrow> nat \<times> nat \<Rightarrow> nat \<times> nat" where
  "countPair a b c =
     (case c of (win, lose) \<Rightarrow>
        if a > b then (win + 1, lose)
        else if a < b then (win, lose + 1)
        else (win, lose))"

definition countWinLose :: "int list \<Rightarrow> int list \<Rightarrow> nat \<times> nat" where
  "countWinLose d1 d2 = fold (\<lambda>a. fold (\<lambda>b. countPair a b) d2) d1 (0, 0)"

definition compareDice :: "int list \<Rightarrow> int list \<Rightarrow> int" where
  "compareDice d1 d2 =
     (case countWinLose d1 d2 of (win, lose) \<Rightarrow>
        if win > lose then 1
        else if lose > win then -1
        else 0)"

text \<open>
  The cell of \<open>showProbabilities\<close> for two different dice: \<open>winCount\<close> counts the pairs
  with \<open>a > b\<close>, and the percentage is \<open>(winCount / total) * 100\<close> with
  \<open>total = DICE_FACES * DICE_FACES\<close>. The percentage is taken over the reals; the
  rounding of \<open>toFixed(1)\<close> to a string is not modelled.
\<close>

definition DICE_FACES :: nat where
  "DICE_FACES = 6"

definition winCount :: "int list \<Rightarrow> int list \<Rightarrow> nat" where
  "winCount d1 d2 =
     fold (\<lambda>a. fold (\<lambda>b n. if a > b then n + 1 else n) d2) d1 0"

definition winPercent :: "int list \<Rightarrow> int list \<Rightarrow> real" where
  "winPercent d1 d2 = (real (winCount d1 d2) / real (DICE_FACES * DICE_FACES)) * 100"

subsection \<open>Strings\<close>

text \<open>
  A \<open>char\<close> stands for one code unit below 256 of a JavaScript string. \<open>trim\<close>
  removes white space and line terminators from both ends; of those, the code units
  below 256 are TAB, LF, VT, FF, CR, the space and the no-break space.
\<close>

definition isWhiteSpace :: "char \<Rightarrow> bool" where
  "isWhiteSpace c = (of_char c \<in> set [9, 10, 11, 12, 13, 32, 160 :: nat])"

definition trim :: "string \<Rightarrow> string" where
  "trim str = rev (dropWhile isWhiteSpace (rev (dropWhile isWhiteSpace str)))"

definition isDigit :: "char \<Rightarrow> bool" where
  "isDigit c = (48 \<le> (of_char c :: nat) \<and> (of_char c :: nat) \<le> 57)"

definition digitValue :: "char \<Rightarrow> int" where
  "digitValue c = int (of_char c) - 48"

text \<open>
  \<open>parseInt(str, 10)\<close> as ECMAScript defines it: skip leading white space, take an
  optional sign, then the longest prefix of decimal digits; whatever follows the digits
  is ignored. With no digit at all the result is \<open>NaN\<close>, here \<open>None\<close>. The value is
  kept as the exact integer. Below \<open>2 ^ 53\<close> in magnitude that is the number the
  code holds; from there on the code holds the nearest double, or an infinity for very
  long digit strings, which this model does not follow. Such a value is never \<open>NaN\<close>
  and never below a \<open>max\<close> of the game, so what is accepted and what is rejected is
  the same; only the value of so large a face differs.
\<close>

definition stripSign :: "string \<Rightarrow> int \<times> string" where
  "stripSign S =
     (case S of
        [] \<Rightarrow> (1, [])
      | c # rest \<Rightarrow>
          if c = CHR ''-'' then (-1, rest)
          else if c = CHR ''+'' then (1, rest)
          else (1, S))"

definition parseInt :: "string \<Rightarrow> int option" where
  "parseInt str =
     (case stripSign (dropWhile isWhiteSpace str) of (sign, S) \<Rightarrow>
        let Z = takeWhile isDigit S
        in if Z = [] then None
           else Some (sign * foldl (\<lambda>n c. 10 * n + digitValue c) 0 Z))"

text \<open>\<open>str.split(',')\<close>: the pieces between the commas; the empty string gives one empty piece.\<close>

fun split_comma :: "string \<Rightarrow> string list" where
  "split_comma [] = [[]]"
| "split_comma (c # cs) =
     (if c = CHR '','' then [] # split_comma cs
      else (case split_comma cs of
              [] \<Rightarrow> [[c]]
            | t # ts \<Rightarrow> (c # t) # ts))"

text \<open>\<open>n.toString()\<close> for an integer: its decimal digits, with a minus sign when negative.\<close>

definition digitChar :: "nat \<Rightarrow> char" where
  "digitChar d = char_of (48 + d)"

function decimal :: "nat \<Rightarrow> string" where
  "decimal n = (if n < 10 then [digitChar n] else decimal (n div 10) @ [digitChar (n mod 10)])"
  by pat_completeness auto
termination
  by (relation "measure (\<lambda>n. n)") auto

declare decimal.simps [simp del]

definition toString :: "int \<Rightarrow> string" where
  "toString n = (if n < 0 then CHR ''-'' # decimal (nat (- n)) else decimal (nat n))"

subsection \<open>Start-up: the dice of the command line\<close>

text \<open>
  Lines 7 to 22. Both failures print a message and end the process with
  \<open>process.exit(1)\<close>: they are the two errors of \<open>startup\<close>. The loop over \<open>args\<close>
  pushes each accepted die on \<open>dice\<close>.
\<close>

datatype config_error = TooFewDice | BadDie

definition parseFaces :: "string \<Rightarrow> int option list" where
  "parseFaces arg = map (\<lambda>x. parseInt (trim x)) (split_comma arg)"

definition isNaN :: "int option \<Rightarrow> bool" where
  "isNaN x = (x = None)"

definition parseDie :: "string \<Rightarrow> config_error + int list" where
  "parseDie arg =
     (let faces = parseFaces arg
      in if length faces \<noteq> DICE_FACES \<or> list_ex isNaN faces then Inl BadDie
         else (case those faces of
                 None \<Rightarrow> Inl BadDie
               | Some die \<Rightarrow> Inr die))"

fun parseDice :: "string list \<Rightarrow> int list list \<Rightarrow> config_error + int list list" where
  "parseDice [] dice = Inr dice"
| "parseDice (arg # args) dice =
     (case parseDie arg of
        Inl e \<Rightarrow> Inl e
      | Inr faces \<Rightarrow> parseDice args (dice @ [faces]))"

definition startup :: "string list \<Rightarrow> config_error + int list list" where
  "startup args = (if length args < 3 then Inl TooFewDice else parseDice args [])"

text \<open>
  What the specification calls an integer token: after trimming, an optional sign
  followed by decimal digits and nothing else.
\<close>

definition isIntegerToken :: "string \<Rightarrow> bool" where
  "isIntegerToken tok =
     (case stripSign (trim tok) of (sign, S) \<Rightarrow> S \<noteq> [] \<and> list_all isDigit S)"

subsection \<open>The platform and the state of a run\<close>

text \<open>
  The script draws randomness from \<open>crypto.randomBytes\<close>, reads the user's answers with
  \<open>rl.question\<close> and computes digests with \<open>crypto.createHmac('sha3-256', key)\<close>. These
  belong to the platform: a \<open>world\<close> fixes the key of the \<open>k\<close>-th call of
  \<open>randomBytes(32)\<close>, the unsigned big-endian value of the \<open>k\<close>-th call of
  \<open>randomBytes(4)\<close>, the \<open>k\<close>-th line the user answers, and the digest function (its
  result is the hexadecimal string). A state counts how much of each has been consumed
  and holds what was printed, oldest first.
\<close>

record world =
  randomKeys :: "nat \<Rightarrow> 256 word"
  randomWords :: "nat \<Rightarrow> 32 word"
  userLines :: "nat \<Rightarrow> string"
  hmac_sha3_256 :: "256 word \<Rightarrow> string \<Rightarrow> string"

datatype printed =
    Committed string string
  | Question int
  | InvalidInput int
  | SecretNumber int
  | SecretKey "256 word"
  | YouEntered int
  | ResultLine int int

record io_state =
  keys_used :: nat
  draws_used :: nat
  lines_read :: nat
  console :: "printed list"

definition console_log :: "printed list \<Rightarrow> io_state \<Rightarrow> io_state" where
  "console_log out s = s\<lparr>console := console s @ out\<rparr>"

definition hmacSha3 :: "world \<Rightarrow> 256 word \<Rightarrow> string \<Rightarrow> string" where
  "hmacSha3 w key msg = hmac_sha3_256 w key msg"

subsection \<open>The secret of the computer\<close>

text \<open>
  \<open>secureRandomInt\<close> loops until a draw is below the cutoff
  \<open>0xFFFFFFFF - (0xFFFFFFFF % max)\<close>. For \<open>max = 0\<close> the cutoff is \<open>NaN\<close> and the
  comparison is false: that is the guard \<open>mx \<noteq> 0\<close>. The loop may run forever; then the
  value is \<open>None\<close>.
\<close>

definition cutoff :: "int \<Rightarrow> int" where
  "cutoff mx = 0xFFFFFFFF - js_rem 0xFFFFFFFF mx"

definition accepted :: "int \<Rightarrow> int \<Rightarrow> bool" where
  "accepted mx num = (mx \<noteq> 0 \<and> num < cutoff mx)"

text \<open>The \<open>k\<close>-th draw of four random bytes after state \<open>s\<close>, read as \<open>readUInt32BE\<close> does.\<close>

definition draw :: "world \<Rightarrow> io_state \<Rightarrow> nat \<Rightarrow> int" where
  "draw w s k = uint (randomWords w (draws_used s + k))"

partial_function (option) secureRandomInt ::
    "world \<Rightarrow> int \<Rightarrow> io_state \<Rightarrow> (int \<times> io_state) option" where
  "secureRandomInt w mx s =
     (let num = uint (randomWords w (draws_used s));
          s' = s\<lparr>draws_used := draws_used s + 1\<rparr>
      in if accepted mx num then Some (js_rem num mx, s')
         else secureRandomInt w mx s')"

declare secureRandomInt.simps [code]

subsection \<open>The exchange\<close>

text \<open>
  Lines 54 to 59: the loop that asks for the user's number until \<open>parseInt\<close> of the
  trimmed answer is a number with \<open>0 \<le> userNum < max\<close>. It may run forever.
  \<open>answer w s k\<close> is the \<open>k\<close>-th answer after state \<open>s\<close>, as
  \<open>parseInt(input.trim(), 10)\<close> reads it.
\<close>

definition answer :: "world \<Rightarrow> io_state \<Rightarrow> nat \<Rightarrow> int option" where
  "answer w s k = parseInt (trim (userLines w (lines_read s + k)))"

definition validUserNum :: "int \<Rightarrow> int option \<Rightarrow> bool" where
  "validUserNum mx userNum =
     (case userNum of
        None \<Rightarrow> False
      | Some n \<Rightarrow> n \<ge> 0 \<and> n < mx)"

partial_function (option) askUserNum ::
    "world \<Rightarrow> int \<Rightarrow> io_state \<Rightarrow> (int \<times> io_state) option" where
  "askUserNum w mx s =
     (let input = userLines w (lines_read s);
          s1 = console_log [Question (mx - 1)] (s\<lparr>lines_read := lines_read s + 1\<rparr>);
          userNum = parseInt (trim input)
      in case userNum of
           None \<Rightarrow> askUserNum w mx (console_log [InvalidInput (mx - 1)] s1)
         | Some n \<Rightarrow>
             if n \<ge> 0 \<and> n < mx then Some (n, s1)
             else askUserNum w mx (console_log [InvalidInput (mx - 1)] s1))"

declare askUserNum.simps [code]

text \<open>
  \<open>fairRandom\<close>, lines 47 to 69: draw the key and the secret, print the digest, read the
  user's number, combine, print the secret, the key, the user's number and the result.
\<close>

definition fairRandom ::
    "world \<Rightarrow> int \<Rightarrow> string \<Rightarrow> io_state \<Rightarrow> (int \<times> io_state) option" where
  "fairRandom w mx label s =
     (let key = randomKeys w (keys_used s);
          s1 = s\<lparr>keys_used := keys_used s + 1\<rparr>
      in case secureRandomInt w mx s1 of
           None \<Rightarrow> None
         | Some (compNum, s2) \<Rightarrow>
             let hmac = hmacSha3 w key (toString compNum);
                 s3 = console_log [Committed label hmac] s2
             in case askUserNum w mx s3 of
                  None \<Rightarrow> None
                | Some (userNum, s4) \<Rightarrow>
                    let result = combine compNum userNum mx
                    in Some (result,
                         console_log [SecretNumber compNum, SecretKey key,
                              YouEntered userNum, ResultLine mx result] s4))"

subsection \<open>The computer's die\<close>

text \<open>
  Lines 173 to 176 of \<open>main\<close>: a first exchange, and while its result is the user's die,
  another one. The loop may run forever.
\<close>

partial_function (option) rerollCompDie ::
    "world \<Rightarrow> int \<Rightarrow> int \<Rightarrow> int \<Rightarrow> io_state \<Rightarrow> (int \<times> io_state) option" where
  "rerollCompDie w diceCount userDieIndex compDieIndex s =
     (if compDieIndex = userDieIndex
      then (case fairRandom w diceCount ''Computer die choice (re-roll to avoid tie)'' s of
              None \<Rightarrow> None
            | Some (r, s') \<Rightarrow> rerollCompDie w diceCount userDieIndex r s')
      else Some (compDieIndex, s))"

declare rerollCompDie.simps [code]

definition chooseCompDie ::
    "world \<Rightarrow> int \<Rightarrow> int \<Rightarrow> io_state \<Rightarrow> (int \<times> io_state) option" where
  "chooseCompDie w diceCount userDieIndex s =
     (case fairRandom w diceCount ''Computer die choice'' s of
        None \<Rightarrow> None
      | Some (compDieIndex, s') \<Rightarrow> rerollCompDie w diceCount userDieIndex compDieIndex s')"

text \<open>
  Exchanges in a row, one for each label, each starting in the state the one before
  left: the results in order and the final state, or \<open>None\<close> when one of them does
  not return. \<open>dieChoiceLabels m\<close> are the labels of the first exchange for the
  computer's die and of \<open>m\<close> re-rolls.
\<close>

fun runExchanges ::
    "world \<Rightarrow> int \<Rightarrow> string list \<Rightarrow> io_state \<Rightarrow> (int list \<times> io_state) option" where
  "runExchanges w mx [] s = Some ([], s)"
| "runExchanges w mx (label # labels) s =
     (case fairRandom w mx label s of
        None \<Rightarrow> None
      | Some (r, s1) \<Rightarrow>
          (case runExchanges w mx labels s1 of
             None \<Rightarrow> None
           | Some (rs, s') \<Rightarrow> Some (r # rs, s')))"

definition dieChoiceLabels :: "nat \<Rightarrow> string list" where
  "dieChoiceLabels m =
     ''Computer die choice'' # replicate m ''Computer die choice (re-roll to avoid tie)''"

subsection \<open>What an exchange prints\<close>

text \<open>
  Readers of the console: the digests of the commitment lines, the results of the result
  lines, the number of prompts. \<open>retries\<close> is what \<open>k\<close> rejected answers leave on the
  console, and \<open>transcript\<close> the whole output of one exchange with \<open>k\<close> rejected
  answers.
\<close>

fun digests :: "printed list \<Rightarrow> string list" where
  "digests [] = []"
| "digests (Committed l d # out) = d # digests out"
| "digests (p # out) = digests out"

fun results :: "printed list \<Rightarrow> int list" where
  "results [] = []"
| "results (ResultLine m r # out) = r # results out"
| "results (p # out) = results out"

fun questions :: "printed list \<Rightarrow> nat" where
  "questions [] = 0"
| "questions (Question m # out) = Suc (questions out)"
| "questions (p # out) = questions out"

definition retries :: "int \<Rightarrow> nat \<Rightarrow> printed list" where
  "retries mx k = concat (replicate k [Question (mx - 1), InvalidInput (mx - 1)])"

definition transcript ::
    "string \<Rightarrow> string \<Rightarrow> int \<Rightarrow> nat \<Rightarrow> int \<Rightarrow> 256 word \<Rightarrow> int \<Rightarrow> int \<Rightarrow> printed list" where
  "transcript label hmac mx k compNum key userNum result =
     [Committed label hmac] @ retries mx k @ [Question (mx - 1)] @
     [SecretNumber compNum, SecretKey key, YouEntered userNum, ResultLine mx result]"

subsection \<open>Concrete runs\<close>

text \<open>
  A world given by the list of its first draws and the list of its first answers (later
  draws are \<open>0\<close>, later answers \<open>''0''\<close>), with a stand-in for the digest function, and
  the state in which a run starts.
\<close>

definition nthOr :: "'a \<Rightarrow> 'a list \<Rightarrow> nat \<Rightarrow> 'a" where
  "nthOr d xs k = (if k < length xs then xs ! k else d)"

definition fixtureWorld :: "32 word list \<Rightarrow> string list \<Rightarrow> world" where
  "fixtureWorld draws answers =
     \<lparr>randomKeys = (\<lambda>k. of_nat k + 0xA5),
      randomWords = nthOr 0 draws,
      userLines = nthOr ''0'' answers,
      hmac_sha3_256 = (\<lambda>key msg. ''hmac('' @ toString (uint key) @ '','' @ msg @ '')'')\<rparr>"

definition start :: io_state where
  "start = \<lparr>keys_used = 0, draws_used = 0, lines_read = 0, console = []\<rparr>"

definition rollWorld :: world where
  "rollWorld = fixtureWorld [0xFFFFFFFF, 17] [''abc'', ''7'', '' 3 '']"

definition collisionWorld :: world where
  "collisionWorld = fixtureWorld [5, 2, 1] [''0'', ''x'', ''0'', ''0'']"

definition oneWorld :: world where
  "oneWorld = fixtureWorld [17] [''0'']"

definition fractionWorld :: world where
  "fractionWorld = fixtureWorld [17] [''1.5'']"

section \<open>Properties\<close>

subsection \<open>Combining the two contributions\<close>

lemma js_rem_nonneg: "0 \<le> a \<Longrightarrow> 0 < b \<Longrightarrow> js_rem a b = a mod b"
  by (cases "a = 0") (simp_all add: js_rem_def)

lemma combine_mod:
  "0 \<le> compNum \<Longrightarrow> 0 \<le> userNum \<Longrightarrow> 0 < mx \<Longrightarrow>
   combine compNum userNum mx = (compNum + userNum) mod mx"
  by (simp add: combine_def js_rem_nonneg)

lemma combine_inj_on:
  assumes "0 < mx" "0 \<le> c"
  shows "inj_on (\<lambda>secret. combine secret c mx) {0..<mx}"
proof (rule inj_onI)
  fix x y
  assume x: "x \<in> {0..<mx}" and y: "y \<in> {0..<mx}"
    and eq: "combine x c mx = combine y c mx"
  from x y assms eq have "(x + c) mod mx = (y + c) mod mx"
    by (simp add: combine_mod)
  then have "x mod mx = y mod mx"
    by (metis add.commute add_diff_cancel_right' mod_diff_left_eq)
  with x y show "x = y" by simp
qed

lemma combine_bij:
  assumes "0 < mx" "0 \<le> c"
  shows "bij_betw (\<lambda>secret. combine secret c mx) {0..<mx} {0..<mx}"
proof -
  let ?f = "\<lambda>secret. combine secret c mx"
  have inj: "inj_on ?f {0..<mx}" using assms by (rule combine_inj_on)
  have sub: "?f ` {0..<mx} \<subseteq> {0..<mx}"
    using assms by (auto simp: combine_mod)
  have "?f ` {0..<mx} = {0..<mx}"
    using inj sub by (simp add: endo_inj_surj)
  with inj show ?thesis by (simp add: bij_betw_def)
qed

text \<open>
  Claim C1. For every \<open>max \<ge> 2\<close> and every counterparty value \<open>c\<close> with
  \<open>0 \<le> c < max\<close>, the map from the secret to the combined value \<open>(secret + c) % max\<close>
  is a bijection of \<open>[0, max)\<close> onto itself. Hence every result \<open>r\<close> in \<open>[0, max)\<close>
  comes from exactly one secret: a secret that is uniform on \<open>[0, max)\<close> gives a result
  that is uniform on \<open>[0, max)\<close>, whatever \<open>c\<close> is.
\<close>

theorem combine_bijection_uniform:
  assumes "2 \<le> mx" "0 \<le> c" "c < mx"
  shows "bij_betw (\<lambda>secret. combine secret c mx) {0..<mx} {0..<mx} \<and>
         (\<forall>secret. 0 \<le> secret \<and> secret < mx \<longrightarrow>
            combine secret c mx = (secret + c) mod mx) \<and>
         (\<forall>r. 0 \<le> r \<and> r < mx \<longrightarrow>
            card {secret \<in> {0..<mx}. combine secret c mx = r} = 1)"
proof (intro conjI allI impI)
  from assms have pos: "0 < mx" by simp
  show bij: "bij_betw (\<lambda>secret. combine secret c mx) {0..<mx} {0..<mx}"
    using pos assms(2) by (rule combine_bij)
  show "combine secret c mx = (secret + c) mod mx" if "0 \<le> secret \<and> secret < mx" for secret
    using that assms(2) pos by (simp add: combine_mod)
  fix r assume r: "0 \<le> r \<and> r < mx"
  then have "r \<in> {0..<mx}" by simp
  with bij obtain s where s: "s \<in> {0..<mx}" "combine s c mx = r"
    unfolding bij_betw_def by (metis (mono_tags, lifting) imageE)
  have "{secret \<in> {0..<mx}. combine secret c mx = r} = {s}"
  proof (rule equalityI; rule subsetI)
    fix x assume "x \<in> {secret \<in> {0..<mx}. combine secret c mx = r}"
    then have "x \<in> {0..<mx}" "combine x c mx = combine s c mx" using s by simp_all
    with s(1) bij have "x = s" unfolding bij_betw_def inj_on_def by blast
    then show "x \<in> {s}" by simp
  next
    fix x assume "x \<in> {s}"
    with s show "x \<in> {secret \<in> {0..<mx}. combine secret c mx = r}" by simp
  qed
  then show "card {secret \<in> {0..<mx}. combine secret c mx = r} = 1" by simp
qed

theorem combine_bijection_uniform_witness:
  "bij_betw (\<lambda>secret. combine secret 4 6) {0..<6} {0..<6} \<and>
   combine 5 4 6 = 3 \<and>
   card {secret \<in> {0..<6}. combine secret 4 6 = 3} = 1"
proof -
  have h: "(2::int) \<le> 6" "(0::int) \<le> 4" "(4::int) < 6" by simp_all
  note t = combine_bijection_uniform [OF h]
  from t have "bij_betw (\<lambda>secret. combine secret 4 6) {0..<6} {0..<6}" by (rule conjunct1)
  moreover from t have "combine 5 4 6 = (5 + 4) mod 6" by simp
  moreover from t have "card {secret \<in> {0..<6}. combine secret 4 6 = 3} = 1" by simp
  ultimately show ?thesis by simp
qed

subsection \<open>Comparing dice\<close>

lemma fold_countPair:
  "fold (\<lambda>b. countPair a b) d2 (win, lose) =
     (win + length (filter (\<lambda>b. a > b) d2), lose + length (filter (\<lambda>b. a < b) d2))"
  by (induction d2 arbitrary: win lose) (auto simp: countPair_def)

lemma fold_fold_countPair:
  "fold (\<lambda>a. fold (\<lambda>b. countPair a b) d2) d1 (win, lose) =
     (win + (\<Sum>a\<leftarrow>d1. length (filter (\<lambda>b. a > b) d2)),
      lose + (\<Sum>a\<leftarrow>d1. length (filter (\<lambda>b. a < b) d2)))"
  by (induction d1 arbitrary: win lose) (simp_all add: fold_countPair)

lemma count_swap:
  "(\<Sum>a\<leftarrow>d1. length (filter (\<lambda>b. P a b) d2)) = (\<Sum>b\<leftarrow>d2. length (filter (\<lambda>a. P a b) d1))"
proof (induction d2)
  case Nil
  then show ?case by simp
next
  case (Cons b d2)
  have "(\<Sum>a\<leftarrow>d1. length (filter (P a) (b # d2)))
        = (\<Sum>a\<leftarrow>d1. (if P a b then 1 else 0) + length (filter (P a) d2))"
    by (rule arg_cong [where f = sum_list]) simp
  also have "\<dots> = (\<Sum>a\<leftarrow>d1. if P a b then 1 else 0) + (\<Sum>a\<leftarrow>d1. length (filter (P a) d2))"
    by (simp add: sum_list_addf)
  also have "(\<Sum>a\<leftarrow>d1. if P a b then 1 else 0) = length (filter (\<lambda>a. P a b) d1)"
    by (induction d1) simp_all
  finally show ?case using Cons by simp
qed

lemma countWinLose_swap:
  "countWinLose d1 d2 = (win, lose) \<Longrightarrow> countWinLose d2 d1 = (lose, win)"
  unfolding countWinLose_def fold_fold_countPair
  using count_swap [of "\<lambda>a b. a > b" d1 d2] count_swap [of "\<lambda>a b. a < b" d1 d2]
  by simp

lemma winCount_eq: "winCount d1 d2 = fst (countWinLose d1 d2)"
proof -
  have inner: "fold (\<lambda>b n. if a > b then n + 1 else n) d2 n = n + length (filter (\<lambda>b. a > b) d2)"
    for a :: int and d2 n
    by (induction d2 arbitrary: n) simp_all
  have "fold (\<lambda>a. fold (\<lambda>b n. if a > b then n + 1 else n) d2) d1 n
          = n + (\<Sum>a\<leftarrow>d1. length (filter (\<lambda>b. a > b) d2))" for n
    by (induction d1 arbitrary: n) (simp_all add: inner)
  then show ?thesis by (simp add: winCount_def countWinLose_def fold_fold_countPair)
qed

text \<open>
  Claim C9. For the dice \<open>d0 = [2,2,4,4,9,9]\<close>, \<open>d1 = [1,1,6,6,8,8]\<close> and
  \<open>d2 = [3,3,5,5,7,7]\<close>, \<open>compareDice\<close> returns \<open>1\<close> (wins against) for \<open>d0\<close> over
  \<open>d1\<close>, for \<open>d1\<close> over \<open>d2\<close> and for \<open>d2\<close> over \<open>d0\<close>: strict wins (20) exceed strict
  losses (16) among the 36 pairs, and each of the three win percentages of the help
  table is above 50.
\<close>

theorem nontransitive_cycle:
  "compareDice [2,2,4,4,9,9] [1,1,6,6,8,8] = 1 \<and>
   compareDice [1,1,6,6,8,8] [3,3,5,5,7,7] = 1 \<and>
   compareDice [3,3,5,5,7,7] [2,2,4,4,9,9] = 1 \<and>
   countWinLose [2,2,4,4,9,9] [1,1,6,6,8,8] = (20, 16) \<and>
   countWinLose [1,1,6,6,8,8] [3,3,5,5,7,7] = (20, 16) \<and>
   countWinLose [3,3,5,5,7,7] [2,2,4,4,9,9] = (20, 16) \<and>
   winCount [2,2,4,4,9,9] [1,1,6,6,8,8] = 20 \<and>
   winCount [1,1,6,6,8,8] [3,3,5,5,7,7] = 20 \<and>
   winCount [3,3,5,5,7,7] [2,2,4,4,9,9] = 20 \<and>
   winPercent [2,2,4,4,9,9] [1,1,6,6,8,8] > 50 \<and>
   winPercent [1,1,6,6,8,8] [3,3,5,5,7,7] > 50 \<and>
   winPercent [3,3,5,5,7,7] [2,2,4,4,9,9] > 50"
  by (simp add: compareDice_def countWinLose_def countPair_def winPercent_def winCount_def
      DICE_FACES_def)

text \<open>
  Claim C10. \<open>compareDice\<close> is antisymmetric: for all dice \<open>A\<close> and \<open>B\<close> the result for
  \<open>(A, B)\<close> is the negation of the result for \<open>(B, A)\<close>; so \<open>A\<close> wins against \<open>B\<close>
  (result \<open>1\<close>) exactly when \<open>B\<close> loses against \<open>A\<close> (result \<open>-1\<close>), and one is a tie
  (result \<open>0\<close>) exactly when the other is.
\<close>

theorem compareDice_antisym:
  "compareDice A B = - compareDice B A \<and>
   (compareDice A B = 1 \<longleftrightarrow> compareDice B A = -1) \<and>
   (compareDice A B = 0 \<longleftrightarrow> compareDice B A = 0) \<and>
   compareDice A B \<in> {1, -1, 0}"
proof -
  obtain win lose where c: "countWinLose A B = (win, lose)" by (cases "countWinLose A B")
  then have "countWinLose B A = (lose, win)" by (rule countWinLose_swap)
  with c show ?thesis by (simp add: compareDice_def)
qed

theorem compareDice_antisym_witness:
  "compareDice [2,2,4,4,9,9] [1,1,6,6,8,8] = 1 \<and>
   compareDice [1,1,6,6,8,8] [2,2,4,4,9,9] = -1 \<and>
   compareDice [1,2,3,4,5,6] [6,5,4,3,2,1] = 0"
proof -
  have a: "compareDice [2,2,4,4,9,9] [1,1,6,6,8,8] = 1"
    by (simp add: compareDice_def countWinLose_def countPair_def)
  have b: "compareDice [1,2,3,4,5,6] [6,5,4,3,2,1] = 0"
    by (simp add: compareDice_def countWinLose_def countPair_def)
  from a compareDice_antisym [of "[2,2,4,4,9,9]" "[1,1,6,6,8,8]"]
  have "compareDice [1,1,6,6,8,8] [2,2,4,4,9,9] = -1" by simp
  with a b show ?thesis by simp
qed

subsection \<open>The secret of the computer\<close>

lemma draw_range: "0 \<le> draw w s k \<and> draw w s k < 2 ^ 32"
  using uint_bounded [of "randomWords w (draws_used s + k)"] by (simp add: draw_def)

lemma secureRandomInt_Some:
  "secureRandomInt w mx s = Some y \<Longrightarrow>
   \<exists>k. accepted mx (draw w s k) \<and> (\<forall>j<k. \<not> accepted mx (draw w s j)) \<and>
       y = (js_rem (draw w s k) mx, s\<lparr>draws_used := draws_used s + k + 1\<rparr>)"
proof (induction rule: secureRandomInt.raw_induct [rotated 1, consumes 1, case_names step])
  case (step f w mx s y)
  let ?s' = "s\<lparr>draws_used := draws_used s + 1\<rparr>"
  have shift: "draw w ?s' j = draw w s (Suc j)" for j
    by (simp add: draw_def)
  show ?case
  proof (cases "accepted mx (draw w s 0)")
    case True
    with step(2) have "y = (js_rem (draw w s 0) mx, ?s')" by (simp add: Let_def draw_def)
    with True show ?thesis by (intro exI [of _ 0]) simp
  next
    case False
    with step(2) have "f w mx ?s' = Some y" by (simp add: Let_def draw_def)
    from step(1) [OF this] obtain k where
      k: "accepted mx (draw w s (Suc k))" "\<forall>j<k. \<not> accepted mx (draw w s (Suc j))"
         "y = (js_rem (draw w s (Suc k)) mx, s\<lparr>draws_used := draws_used s + Suc k + 1\<rparr>)"
      unfolding shift by auto
    have "\<forall>j<Suc k. \<not> accepted mx (draw w s j)"
    proof (intro allI impI)
      fix j assume "j < Suc k"
      show "\<not> accepted mx (draw w s j)"
      proof (cases j)
        case 0
        with False show ?thesis by simp
      next
        case (Suc i)
        with \<open>j < Suc k\<close> k(2) show ?thesis by simp
      qed
    qed
    with k(1,3) show ?thesis by (intro exI [of _ "Suc k"]) simp
  qed
qed

lemma secureRandomInt_returns:
  "accepted mx (draw w s k) \<Longrightarrow> \<exists>y. secureRandomInt w mx s = Some y"
proof (induction k arbitrary: s)
  case 0
  then show ?case by (subst secureRandomInt.simps) (simp add: Let_def draw_def)
next
  case (Suc k)
  let ?s' = "s\<lparr>draws_used := draws_used s + 1\<rparr>"
  from Suc.prems have "accepted mx (draw w ?s' k)" by (simp add: draw_def)
  from Suc.IH [OF this] obtain y where "secureRandomInt w mx ?s' = Some y" ..
  then show ?case by (subst secureRandomInt.simps) (simp add: Let_def)
qed

lemma secureRandomInt_range:
  assumes "secureRandomInt w mx s = Some (v, s')" "0 < mx"
  shows "0 \<le> v \<and> v < mx"
proof -
  from secureRandomInt_Some [OF assms(1)] obtain k where "v = js_rem (draw w s k) mx"
    by auto
  with assms(2) draw_range [of w s k] show ?thesis by (simp add: js_rem_nonneg)
qed

lemma cutoff_eq: "0 < mx \<Longrightarrow> cutoff mx = mx * (0xFFFFFFFF div mx)"
  by (simp add: cutoff_def js_rem_nonneg minus_mod_eq_mult_div)

lemma cutoff_multiple: "0 < mx \<Longrightarrow> cutoff mx mod mx = 0"
  by (simp add: cutoff_eq)

lemma cutoff_le: "0 < mx \<Longrightarrow> cutoff mx \<le> 0xFFFFFFFF"
  by (simp add: cutoff_def js_rem_nonneg)

lemma cutoff_pos: "0 < mx \<Longrightarrow> mx < 2 ^ 32 \<Longrightarrow> 0 < cutoff mx"
proof -
  assume a: "0 < mx" "mx < 2 ^ 32"
  then have "1 \<le> (0xFFFFFFFF :: int) div mx"
    using pos_imp_zdiv_pos_iff [of mx "0xFFFFFFFF"] by simp
  with a show ?thesis by (simp add: cutoff_eq)
qed

lemma accepted_iff: "0 < mx \<Longrightarrow> accepted mx num \<longleftrightarrow> num < mx * (0xFFFFFFFF div mx)"
  by (simp add: accepted_def cutoff_eq)

lemma residue_class_card:
  fixes m K r :: int
  assumes "0 < m" "0 \<le> K" "0 \<le> r" "r < m"
  shows "card {num. 0 \<le> num \<and> num < m * K \<and> num mod m = r} = nat K"
proof -
  let ?S = "{num. 0 \<le> num \<and> num < m * K \<and> num mod m = r}"
  let ?g = "\<lambda>q. m * q + r"
  have "?S = ?g ` {0..<K}"
  proof (rule equalityI; rule subsetI)
    fix num assume "num \<in> ?S"
    then have n: "0 \<le> num" "num < m * K" "num mod m = r" by simp_all
    from n(1) assms(1) have "0 \<le> num div m" by (simp add: pos_imp_zdiv_nonneg_iff)
    moreover have "num div m < K"
    proof (rule ccontr)
      assume "\<not> num div m < K"
      then have "K \<le> num div m" by simp
      with assms(1) have "m * K \<le> m * (num div m)" by (simp add: mult_left_mono)
      moreover have "m * (num div m) + num mod m = num" by simp
      moreover have "0 \<le> num mod m" using assms(1) by simp
      ultimately show False using n(2) by linarith
    qed
    moreover have "num = m * (num div m) + r" using n(3) by (metis mult_div_mod_eq)
    ultimately show "num \<in> ?g ` {0..<K}" by auto
  next
    fix num assume "num \<in> ?g ` {0..<K}"
    then obtain q where q: "0 \<le> q" "q < K" "num = m * q + r" by auto
    from q(2) have "q + 1 \<le> K" by simp
    with assms(1) have "m * (q + 1) \<le> m * K" by (simp add: mult_left_mono)
    with q assms have "num < m * K" by (simp add: distrib_left)
    moreover from q assms have "0 \<le> num" by simp
    moreover from q assms have "num mod m = r" by simp
    ultimately show "num \<in> ?S" by simp
  qed
  moreover have "inj_on ?g {0..<K}" using assms(1) by (auto simp: inj_on_def)
  ultimately have "card ?S = card {0..<K}" by (simp add: card_image)
  then show ?thesis by simp
qed

lemma accepted_residue_card:
  assumes "0 < mx" "0 \<le> r" "r < mx"
  shows "card {num. 0 \<le> num \<and> num < 2 ^ 32 \<and> accepted mx num \<and> js_rem num mx = r}
           = nat (cutoff mx div mx)"
proof -
  let ?K = "0xFFFFFFFF div mx"
  have K: "0 \<le> ?K" using assms(1) by (simp add: pos_imp_zdiv_nonneg_iff)
  have le: "mx * ?K \<le> 0xFFFFFFFF" using cutoff_le [OF assms(1)] cutoff_eq [OF assms(1)] by simp
  have "{num. 0 \<le> num \<and> num < 2 ^ 32 \<and> accepted mx num \<and> js_rem num mx = r}
          = {num. 0 \<le> num \<and> num < mx * ?K \<and> num mod mx = r}"
    using assms(1) le by (auto simp: accepted_iff js_rem_nonneg)
  also have "card \<dots> = nat ?K" by (rule residue_class_card [OF assms(1) K assms(2,3)])
  finally show ?thesis using assms(1) by (simp add: cutoff_eq)
qed

lemma eval_sample:
  "secureRandomInt (fixtureWorld [0xFFFFFFFF, 17] []) 6 start
     = Some (5, start\<lparr>draws_used := 2\<rparr>)"
  by (simp add: secureRandomInt.simps fixtureWorld_def start_def nthOr_def accepted_def
      cutoff_def js_rem_def)

lemma cutoff_6: "cutoff 6 = 4294967292"
  by (simp add: cutoff_def js_rem_def)

text \<open>
  Claim C3. For every \<open>max\<close> with \<open>2 \<le> max \<le> 2 ^ 32\<close>: the cutoff is a multiple of
  \<open>max\<close>; a draw is accepted exactly when it is below the cutoff, and a rejected draw is
  followed by a new one; a returned value is the first accepted draw reduced modulo
  \<open>max\<close>, so it lies in \<open>[0, max)\<close>; the sampler returns as soon as an accepted draw
  arrives; and every residue \<open>r\<close> in \<open>[0, max)\<close> is the image of the same number
  (\<open>cutoff / max\<close>) of accepted 32-bit draws, so there is no modulo bias.
\<close>

theorem secureRandomInt_unbiased:
  assumes "2 \<le> mx" "mx \<le> 2 ^ 32"
  shows "cutoff mx mod mx = 0 \<and>
         (\<forall>num. accepted mx num \<longleftrightarrow> num < cutoff mx) \<and>
         (\<forall>v s'. secureRandomInt w mx s = Some (v, s') \<longrightarrow>
            0 \<le> v \<and> v < mx \<and>
            (\<exists>k. accepted mx (draw w s k) \<and> (\<forall>j<k. \<not> accepted mx (draw w s j)) \<and>
                 v = draw w s k mod mx \<and> draws_used s' = draws_used s + k + 1)) \<and>
         ((\<exists>k. accepted mx (draw w s k)) \<longrightarrow> (\<exists>y. secureRandomInt w mx s = Some y)) \<and>
         (\<forall>r. 0 \<le> r \<and> r < mx \<longrightarrow>
            card {num. 0 \<le> num \<and> num < 2 ^ 32 \<and> accepted mx num \<and> js_rem num mx = r}
              = nat (cutoff mx div mx))"
proof (intro conjI allI impI)
  from assms have pos: "0 < mx" by simp
  show "cutoff mx mod mx = 0" using pos by (rule cutoff_multiple)
  show "accepted mx num \<longleftrightarrow> num < cutoff mx" for num
    using pos by (simp add: accepted_def)
  show "\<exists>y. secureRandomInt w mx s = Some y" if "\<exists>k. accepted mx (draw w s k)"
    using that secureRandomInt_returns [of mx w s] by auto
  show "card {num. 0 \<le> num \<and> num < 2 ^ 32 \<and> accepted mx num \<and> js_rem num mx = r}
          = nat (cutoff mx div mx)" if "0 \<le> r \<and> r < mx" for r
    using accepted_residue_card [OF pos, of r] that by blast
  fix v s' assume ret: "secureRandomInt w mx s = Some (v, s')"
  from secureRandomInt_range [OF ret pos] show "0 \<le> v" "v < mx" by simp_all
  from secureRandomInt_Some [OF ret] obtain k where
    k: "accepted mx (draw w s k)" "\<forall>j<k. \<not> accepted mx (draw w s j)"
       "v = js_rem (draw w s k) mx" "s' = s\<lparr>draws_used := draws_used s + k + 1\<rparr>"
    by auto
  from k(3) pos draw_range [of w s k] have "v = draw w s k mod mx" by (simp add: js_rem_nonneg)
  with k(1,2,4) show "\<exists>k. accepted mx (draw w s k) \<and> (\<forall>j<k. \<not> accepted mx (draw w s j)) \<and>
                 v = draw w s k mod mx \<and> draws_used s' = draws_used s + k + 1"
    by (intro exI [of _ k]) simp
qed

theorem secureRandomInt_unbiased_witness:
  "cutoff 6 mod 6 = 0 \<and>
   secureRandomInt (fixtureWorld [0xFFFFFFFF, 17] []) 6 start
     = Some (5, start\<lparr>draws_used := 2\<rparr>) \<and>
   (5::int) < 6 \<and>
   card {num. 0 \<le> num \<and> num < 2 ^ 32 \<and> accepted 6 num \<and> js_rem num 6 = 4} = 715827882"
proof -
  have mx: "(2::int) \<le> 6" "(6::int) \<le> 2 ^ 32" by simp_all
  note t = secureRandomInt_unbiased [OF mx, of "fixtureWorld [0xFFFFFFFF, 17] []" start]
  from t have "cutoff 6 mod 6 = 0" by (rule conjunct1)
  moreover from t have
    "\<forall>r. 0 \<le> r \<and> r < 6 \<longrightarrow>
       card {num. 0 \<le> num \<and> num < 2 ^ 32 \<and> accepted 6 num \<and> js_rem num 6 = r}
         = nat (cutoff 6 div 6)"
    by blast
  then have "card {num. 0 \<le> num \<and> num < 2 ^ 32 \<and> accepted 6 num \<and> js_rem num 6 = 4}
         = nat (cutoff 6 div 6)"
    by simp
  then have "card {num. 0 \<le> num \<and> num < 2 ^ 32 \<and> accepted 6 num \<and> js_rem num 6 = 4}
         = 715827882"
    by (simp add: cutoff_6)
  moreover from t eval_sample have "(5::int) < 6" by blast
  ultimately show ?thesis using eval_sample by blast
qed

subsection \<open>Asking for the user's number\<close>

lemma validUserNum_iff: "validUserNum mx x \<longleftrightarrow> (\<exists>n. x = Some n \<and> 0 \<le> n \<and> n < mx)"
  by (cases x) (auto simp: validUserNum_def)

lemma askUserNum_unfold:
  "askUserNum w mx s =
     (if validUserNum mx (answer w s 0)
      then (case answer w s 0 of None \<Rightarrow> None | Some n \<Rightarrow>
              Some (n, console_log [Question (mx - 1)] (s\<lparr>lines_read := lines_read s + 1\<rparr>)))
      else askUserNum w mx (console_log [Question (mx - 1), InvalidInput (mx - 1)]
             (s\<lparr>lines_read := lines_read s + 1\<rparr>)))"
  by (subst askUserNum.simps)
     (simp add: Let_def validUserNum_def answer_def console_log_def split: option.split)

lemma askUserNum_Some:
  "askUserNum w mx s = Some y \<Longrightarrow>
   \<exists>k n. (\<forall>j<k. \<not> validUserNum mx (answer w s j)) \<and>
         answer w s k = Some n \<and> 0 \<le> n \<and> n < mx \<and>
         y = (n, s\<lparr>lines_read := lines_read s + k + 1,
                    console := console s @ retries mx k @ [Question (mx - 1)]\<rparr>)"
proof (induction rule: askUserNum.raw_induct [rotated 1, consumes 1, case_names step])
  case (step f w mx s y)
  let ?s1 = "console_log [Question (mx - 1)] (s\<lparr>lines_read := lines_read s + 1\<rparr>)"
  let ?s2 = "console_log [InvalidInput (mx - 1)] ?s1"
  show ?case
  proof (cases "validUserNum mx (answer w s 0)")
    case True
    then obtain n where n: "answer w s 0 = Some n" "0 \<le> n" "n < mx"
      by (auto simp: validUserNum_iff)
    with step(2) have "y = (n, ?s1)" by (simp add: Let_def answer_def)
    with n show ?thesis
      by (intro exI [of _ 0] exI [of _ n]) (simp add: retries_def console_log_def)
  next
    case False
    with step(2) have "f w mx ?s2 = Some y"
      by (auto simp: Let_def answer_def validUserNum_def split: option.splits if_splits)
    from step(1) [OF this] obtain k n where
      k: "\<forall>j<k. \<not> validUserNum mx (answer w ?s2 j)"
         "answer w ?s2 k = Some n" "0 \<le> n" "n < mx"
         "y = (n, ?s2\<lparr>lines_read := lines_read ?s2 + k + 1,
                    console := console ?s2 @ retries mx k @ [Question (mx - 1)]\<rparr>)"
      by blast
    have shift: "answer w ?s2 j = answer w s (Suc j)" for j
      by (simp add: answer_def console_log_def)
    have "\<forall>j<Suc k. \<not> validUserNum mx (answer w s j)"
    proof (intro allI impI)
      fix j assume "j < Suc k"
      show "\<not> validUserNum mx (answer w s j)"
      proof (cases j)
        case 0 with False show ?thesis by simp
      next
        case (Suc i)
        with \<open>j < Suc k\<close> k(1) shift show ?thesis by simp
      qed
    qed
    moreover from k(2) shift have "answer w s (Suc k) = Some n" by simp
    moreover from k(5) have
      "y = (n, s\<lparr>lines_read := lines_read s + Suc k + 1,
                   console := console s @ retries mx (Suc k) @ [Question (mx - 1)]\<rparr>)"
      by (simp add: console_log_def retries_def)
    ultimately show ?thesis using k(3,4) by blast
  qed
qed

lemma askUserNum_returns:
  "validUserNum mx (answer w s k) \<Longrightarrow> \<exists>y. askUserNum w mx s = Some y"
proof (induction k arbitrary: s)
  case 0
  then show ?case
    by (subst askUserNum_unfold) (auto simp: validUserNum_iff)
next
  case (Suc k)
  let ?s2 = "console_log [Question (mx - 1), InvalidInput (mx - 1)]
             (s\<lparr>lines_read := lines_read s + 1\<rparr>)"
  from Suc.prems have "validUserNum mx (answer w ?s2 k)"
    by (simp add: answer_def console_log_def)
  from Suc.IH [OF this] obtain y where y: "askUserNum w mx ?s2 = Some y" ..
  show ?case
  proof (cases "validUserNum mx (answer w s 0)")
    case True
    then show ?thesis by (subst askUserNum_unfold) (auto simp: validUserNum_iff)
  next
    case False
    with y show ?thesis by (subst askUserNum_unfold) simp
  qed
qed

lemma askUserNum_range:
  assumes "askUserNum w mx s = Some (n, s')"
  shows "0 \<le> n \<and> n < mx"
  using askUserNum_Some [OF assms] by auto

subsection \<open>What an exchange prints\<close>

lemma digests_append: "digests (xs @ ys) = digests xs @ digests ys"
  by (induction xs rule: digests.induct) simp_all

lemma results_append: "results (xs @ ys) = results xs @ results ys"
  by (induction xs rule: results.induct) simp_all

lemma questions_append: "questions (xs @ ys) = questions xs + questions ys"
  by (induction xs rule: questions.induct) simp_all

lemma digests_retries: "digests (retries mx k) = []"
  by (induction k) (simp_all add: retries_def)

lemma results_retries: "results (retries mx k) = []"
  by (induction k) (simp_all add: retries_def)

lemma questions_retries: "questions (retries mx k) = k"
  by (induction k) (simp_all add: retries_def)

lemma digests_transcript:
  "digests (transcript label hmac mx k compNum key userNum result) = [hmac]"
  by (simp add: transcript_def digests_append digests_retries)

lemma results_transcript:
  "results (transcript label hmac mx k compNum key userNum result) = [result]"
  by (simp add: transcript_def results_append results_retries)

lemma questions_transcript:
  "questions (transcript label hmac mx k compNum key userNum result) = Suc k"
  by (simp add: transcript_def questions_append questions_retries)

subsection \<open>The exchange\<close>

lemma fairRandom_SomeD:
  assumes "fairRandom w mx label s = Some (result, s')"
  shows "\<exists>compNum s2 userNum s4.
           secureRandomInt w mx (s\<lparr>keys_used := keys_used s + 1\<rparr>) = Some (compNum, s2) \<and>
           askUserNum w mx
             (console_log [Committed label
                (hmacSha3 w (randomKeys w (keys_used s)) (toString compNum))] s2)
             = Some (userNum, s4) \<and>
           result = combine compNum userNum mx \<and>
           s' = console_log [SecretNumber compNum, SecretKey (randomKeys w (keys_used s)),
                             YouEntered userNum, ResultLine mx result] s4"
  using assms
  by (auto simp: fairRandom_def Let_def split: option.splits prod.splits)

lemma fairRandom_eq:
  assumes "secureRandomInt w mx (s\<lparr>keys_used := keys_used s + 1\<rparr>) = Some (compNum, s2)"
    and "askUserNum w mx
             (console_log [Committed label
                (hmacSha3 w (randomKeys w (keys_used s)) (toString compNum))] s2)
             = Some (userNum, s4)"
  shows "fairRandom w mx label s =
           Some (combine compNum userNum mx,
                 console_log [SecretNumber compNum, SecretKey (randomKeys w (keys_used s)),
                   YouEntered userNum, ResultLine mx (combine compNum userNum mx)] s4)"
  using assms by (simp add: fairRandom_def Let_def)

lemma fairRandom_Some:
  assumes "fairRandom w mx label s = Some (result, s')"
  shows "\<exists>i k compNum userNum.
           accepted mx (draw w s i) \<and> (\<forall>j<i. \<not> accepted mx (draw w s j)) \<and>
           compNum = js_rem (draw w s i) mx \<and>
           (\<forall>j<k. \<not> validUserNum mx (answer w s j)) \<and>
           answer w s k = Some userNum \<and> 0 \<le> userNum \<and> userNum < mx \<and>
           result = combine compNum userNum mx \<and>
           s' = s\<lparr>keys_used := keys_used s + 1,
                    draws_used := draws_used s + i + 1,
                    lines_read := lines_read s + k + 1,
                    console := console s @
                      transcript label
                        (hmacSha3 w (randomKeys w (keys_used s)) (toString compNum))
                        mx k compNum (randomKeys w (keys_used s)) userNum result\<rparr>"
proof -
  let ?key = "randomKeys w (keys_used s)"
  let ?s1 = "s\<lparr>keys_used := keys_used s + 1\<rparr>"
  from fairRandom_SomeD [OF assms] obtain compNum s2 userNum s4 where
    a: "secureRandomInt w mx ?s1 = Some (compNum, s2)"
    and b: "askUserNum w mx
             (console_log [Committed label (hmacSha3 w ?key (toString compNum))] s2)
             = Some (userNum, s4)"
    and r: "result = combine compNum userNum mx"
    and s': "s' = console_log [SecretNumber compNum, SecretKey ?key,
                             YouEntered userNum, ResultLine mx result] s4"
    by blast
  let ?s3 = "console_log [Committed label (hmacSha3 w ?key (toString compNum))] s2"
  have drw: "draw w ?s1 j = draw w s j" for j
    by (simp add: draw_def)
  from secureRandomInt_Some [OF a] obtain i where
    i: "accepted mx (draw w s i)" "\<forall>j<i. \<not> accepted mx (draw w s j)"
       "compNum = js_rem (draw w s i) mx"
       "s2 = ?s1\<lparr>draws_used := draws_used s + i + 1\<rparr>"
    unfolding drw by auto
  have ans: "answer w ?s3 j = answer w s j" for j
    using i(4) by (simp add: answer_def console_log_def)
  from askUserNum_Some [OF b] obtain k where
    k: "\<forall>j<k. \<not> validUserNum mx (answer w s j)"
       "answer w s k = Some userNum" "0 \<le> userNum" "userNum < mx"
       "s4 = ?s3\<lparr>lines_read := lines_read ?s3 + k + 1,
                 console := console ?s3 @ retries mx k @ [Question (mx - 1)]\<rparr>"
    unfolding ans by auto
  from s' k(5) i(4) have
    "s' = s\<lparr>keys_used := keys_used s + 1,
                    draws_used := draws_used s + i + 1,
                    lines_read := lines_read s + k + 1,
                    console := console s @
                      transcript label (hmacSha3 w ?key (toString compNum))
                        mx k compNum ?key userNum result\<rparr>"
    by (simp add: console_log_def transcript_def)
  with i(1,2,3) k(1,2,3,4) r show ?thesis by blast
qed

lemma fairRandom_returns:
  assumes "accepted mx (draw w s i)" and "validUserNum mx (answer w s k)"
  shows "\<exists>y. fairRandom w mx label s = Some y"
proof -
  let ?key = "randomKeys w (keys_used s)"
  let ?s1 = "s\<lparr>keys_used := keys_used s + 1\<rparr>"
  from assms(1) have "accepted mx (draw w ?s1 i)"
    by (simp add: draw_def)
  from secureRandomInt_returns [OF this] obtain compNum s2 where
    a: "secureRandomInt w mx ?s1 = Some (compNum, s2)" by force
  let ?s3 = "console_log [Committed label (hmacSha3 w ?key (toString compNum))] s2"
  from secureRandomInt_Some [OF a] have "lines_read s2 = lines_read s" by auto
  with assms(2) have "validUserNum mx (answer w ?s3 k)"
    by (simp add: answer_def console_log_def)
  from askUserNum_returns [OF this] obtain userNum s4 where
    "askUserNum w mx ?s3 = Some (userNum, s4)" by force
  from fairRandom_eq [OF a this] show ?thesis by blast
qed

lemma fairRandom_range:
  assumes "fairRandom w mx label s = Some (result, s')"
  shows "0 \<le> result \<and> result < mx"
proof -
  from fairRandom_Some [OF assms] obtain i compNum userNum where
    f: "compNum = js_rem (draw w s i) mx" "0 \<le> userNum" "userNum < mx"
       "result = combine compNum userNum mx"
    by blast
  from f(2,3) have pos: "0 < mx" by simp
  with f(1) draw_range [of w s i] have "0 \<le> compNum" by (simp add: js_rem_nonneg)
  with f(2,4) pos show ?thesis by (simp add: combine_mod)
qed

lemma fairRandom_effect:
  assumes "fairRandom w mx label s = Some (result, s')"
  shows "\<exists>out. console s' = console s @ out \<and> keys_used s' = keys_used s + 1 \<and>
           draws_used s < draws_used s' \<and> lines_read s' = lines_read s + questions out \<and>
           results out = [result] \<and> length (digests out) = 1 \<and> 1 \<le> questions out"
proof -
  from fairRandom_Some [OF assms] obtain i k compNum userNum where
    "s' = s\<lparr>keys_used := keys_used s + 1,
                    draws_used := draws_used s + i + 1,
                    lines_read := lines_read s + k + 1,
                    console := console s @
                      transcript label
                        (hmacSha3 w (randomKeys w (keys_used s)) (toString compNum))
                        mx k compNum (randomKeys w (keys_used s)) userNum result\<rparr>"
    by blast
  then show ?thesis
    by (intro exI [of _ "transcript label
                        (hmacSha3 w (randomKeys w (keys_used s)) (toString compNum))
                        mx k compNum (randomKeys w (keys_used s)) userNum result"])
       (simp add: digests_transcript results_transcript questions_transcript)
qed

subsection \<open>Decimal strings\<close>

lemma isDigit_digitChar: "d < 10 \<Longrightarrow> isDigit (digitChar d)"
  by (simp add: isDigit_def digitChar_def)

lemma digitValue_digitChar: "d < 10 \<Longrightarrow> digitValue (digitChar d) = int d"
  by (simp add: digitValue_def digitChar_def)

lemma decimal_digits: "list_all isDigit (decimal n)"
proof (induction n rule: decimal.induct)
  case (1 n)
  show ?case
  proof (cases "n < 10")
    case True
    then show ?thesis by (subst decimal.simps) (simp add: isDigit_digitChar)
  next
    case False
    with 1 show ?thesis by (subst decimal.simps) (simp add: isDigit_digitChar)
  qed
qed

lemma decimal_nonempty: "decimal n \<noteq> []"
  by (subst decimal.simps) simp

lemma decimal_value: "foldl (\<lambda>n c. 10 * n + digitValue c) 0 (decimal n) = int n"
proof (induction n rule: decimal.induct)
  case (1 n)
  show ?case
  proof (cases "n < 10")
    case True
    then show ?thesis by (subst decimal.simps) (simp add: digitValue_digitChar)
  next
    case False
    with 1 have "foldl (\<lambda>n c. 10 * n + digitValue c) 0 (decimal (n div 10)) = int (n div 10)"
      by simp
    with False show ?thesis
      by (subst decimal.simps) (simp add: digitValue_digitChar zdiv_int zmod_int)
  qed
qed

lemma isDigit_not_space: "isDigit c \<Longrightarrow> \<not> isWhiteSpace c"
  by (auto simp: isDigit_def isWhiteSpace_def)

lemma isDigit_not_sign: "isDigit c \<Longrightarrow> c \<noteq> CHR ''-'' \<and> c \<noteq> CHR ''+''"
  by (auto simp: isDigit_def)

lemma parseInt_digits:
  assumes "S \<noteq> []" "list_all isDigit S"
  shows "parseInt S = Some (foldl (\<lambda>n c. 10 * n + digitValue c) 0 S)"
proof -
  from assms obtain c cs where S: "S = c # cs" by (cases S) auto
  with assms(2) have c: "isDigit c" by simp
  then have dw: "dropWhile isWhiteSpace S = S" using S by (simp add: isDigit_not_space)
  have ss: "stripSign S = (1, S)" using S c isDigit_not_sign [OF c]
    by (simp add: stripSign_def)
  have tw: "takeWhile isDigit S = S" using assms(2)
    by (simp add: list_all_iff)
  have "parseInt S =
          (let Z = takeWhile isDigit S
           in if Z = [] then None
              else Some (1 * foldl (\<lambda>n c. 10 * n + digitValue c) 0 Z))"
    by (simp only: parseInt_def dw ss prod.case)
  also have "\<dots> = Some (foldl (\<lambda>n c. 10 * n + digitValue c) 0 S)"
    unfolding tw Let_def using assms(1) by simp
  finally show ?thesis .
qed

lemma parseInt_toString: "0 \<le> n \<Longrightarrow> parseInt (toString n) = Some n"
  by (simp add: toString_def parseInt_digits decimal_nonempty decimal_digits decimal_value)

lemma toString_digits: "0 \<le> n \<Longrightarrow> list_all isDigit (toString n)"
  by (simp add: toString_def decimal_digits)

subsection \<open>A run of one exchange\<close>

lemma eval_roll_secret:
  "secureRandomInt rollWorld 6 (start\<lparr>keys_used := keys_used start + 1\<rparr>)
     = Some (5, \<lparr>keys_used = 1, draws_used = 2, lines_read = 0, console = []\<rparr>)"
  by code_simp

lemma eval_roll_answer:
  "askUserNum rollWorld 6
     (console_log [Committed ''Your roll''
        (hmacSha3 rollWorld (randomKeys rollWorld (keys_used start)) (toString 5))]
        \<lparr>keys_used = 1, draws_used = 2, lines_read = 0, console = []\<rparr>)
     = Some (3, \<lparr>keys_used = 1, draws_used = 2, lines_read = 3,
                 console = [Committed ''Your roll'' ''hmac(165,5)'',
                            Question 5, InvalidInput 5, Question 5, InvalidInput 5,
                            Question 5]\<rparr>)"
  by code_simp

lemma eval_roll:
  "fairRandom rollWorld 6 ''Your roll'' start
     = Some (2, \<lparr>keys_used = 1, draws_used = 2, lines_read = 3,
                 console = [Committed ''Your roll'' ''hmac(165,5)'',
                            Question 5, InvalidInput 5, Question 5, InvalidInput 5,
                            Question 5,
                            SecretNumber 5, SecretKey 0xA5, YouEntered 3, ResultLine 6 2]\<rparr>)"
  by code_simp

text \<open>
  Claim C2. Given the secret that \<open>secureRandomInt\<close> returned and the value that the
  validation loop returned for the counterparty, \<open>fairRandom\<close> returns exactly
  \<open>(secret + counterpartyValue) mod max\<close>; the secret, the counterparty value and the
  result all lie in \<open>[0, max)\<close>.
\<close>

theorem fairRandom_result:
  assumes "secureRandomInt w mx (s\<lparr>keys_used := keys_used s + 1\<rparr>) = Some (secret, s2)"
    and "askUserNum w mx
             (console_log [Committed label
                (hmacSha3 w (randomKeys w (keys_used s)) (toString secret))] s2)
             = Some (counterpartyValue, s4)"
  shows "(\<exists>s'. fairRandom w mx label s = Some ((secret + counterpartyValue) mod mx, s')) \<and>
         0 \<le> secret \<and> secret < mx \<and> 0 \<le> counterpartyValue \<and> counterpartyValue < mx \<and>
         0 \<le> (secret + counterpartyValue) mod mx \<and> (secret + counterpartyValue) mod mx < mx"
proof -
  from askUserNum_range [OF assms(2)] have u: "0 \<le> counterpartyValue" "counterpartyValue < mx"
    by simp_all
  then have pos: "0 < mx" by simp
  from secureRandomInt_range [OF assms(1) pos] have c: "0 \<le> secret" "secret < mx" by simp_all
  from c u pos have "combine secret counterpartyValue mx = (secret + counterpartyValue) mod mx"
    by (simp add: combine_mod)
  with fairRandom_eq [OF assms] have
    "\<exists>s'. fairRandom w mx label s = Some ((secret + counterpartyValue) mod mx, s')" by simp
  with c u pos show ?thesis by simp
qed

theorem fairRandom_result_witness:
  "secureRandomInt rollWorld 6 (start\<lparr>keys_used := keys_used start + 1\<rparr>)
     = Some (5, \<lparr>keys_used = 1, draws_used = 2, lines_read = 0, console = []\<rparr>) \<and>
   (\<exists>s'. fairRandom rollWorld 6 ''Your roll'' start = Some ((5 + 3) mod 6, s')) \<and>
   ((5 + 3) mod 6 :: int) < 6"
  using fairRandom_result [OF eval_roll_secret eval_roll_answer] eval_roll_secret
  by simp

text \<open>
  Claim C4. In every exchange that completes, the console shows first the digest, then
  the prompts, then the secret and the key, and the digest shown is the platform's
  HMAC with SHA3-256 (\<open>hmac_sha3_256\<close>), keyed by the 256-bit key drawn for this
  exchange, of \<open>compNum.toString()\<close>: the decimal digits of the secret, which
  \<open>parseInt\<close> reads back as the secret. Recomputing that HMAC from the revealed key
  and secret therefore gives the disclosed digest.
\<close>

theorem commitment_binding:
  assumes "fairRandom w mx label s = Some (result, s')"
  shows "\<exists>digest k secret key userNum.
           console s' = console s @ transcript label digest mx k secret key userNum result \<and>
           digest = hmac_sha3_256 w key (toString secret) \<and>
           key = randomKeys w (keys_used s) \<and>
           0 \<le> secret \<and> secret < mx \<and>
           list_all isDigit (toString secret) \<and> parseInt (toString secret) = Some secret"
proof -
  from fairRandom_Some [OF assms] obtain i k compNum userNum where
    f: "accepted mx (draw w s i)" "compNum = js_rem (draw w s i) mx"
       "0 \<le> userNum" "userNum < mx"
       "s' = s\<lparr>keys_used := keys_used s + 1,
                    draws_used := draws_used s + i + 1,
                    lines_read := lines_read s + k + 1,
                    console := console s @
                      transcript label
                        (hmacSha3 w (randomKeys w (keys_used s)) (toString compNum))
                        mx k compNum (randomKeys w (keys_used s)) userNum result\<rparr>"
    by blast
  from f(3,4) have "0 < mx" by simp
  with f(2) draw_range [of w s i] have c: "0 \<le> compNum \<and> compNum < mx"
    by (simp add: js_rem_nonneg)
  moreover from f(5) have "console s' = console s @
      transcript label (hmacSha3 w (randomKeys w (keys_used s)) (toString compNum))
        mx k compNum (randomKeys w (keys_used s)) userNum result" by simp
  moreover from c have "list_all isDigit (toString compNum)"
    "parseInt (toString compNum) = Some compNum"
    by (simp_all add: toString_digits parseInt_toString)
  moreover have "hmacSha3 w (randomKeys w (keys_used s)) (toString compNum)
      = hmac_sha3_256 w (randomKeys w (keys_used s)) (toString compNum)"
    by (simp add: hmacSha3_def)
  ultimately show ?thesis by blast
qed

theorem commitment_binding_witness:
  "fairRandom rollWorld 6 ''Your roll'' start \<noteq> None \<and>
   (\<exists>digest k secret key userNum.
      [Committed ''Your roll'' ''hmac(165,5)'',
       Question 5, InvalidInput 5, Question 5, InvalidInput 5, Question 5,
       SecretNumber 5, SecretKey 0xA5, YouEntered 3, ResultLine 6 2]
        = transcript ''Your roll'' digest 6 k secret key userNum 2 \<and>
      digest = hmac_sha3_256 rollWorld key (toString secret))"
proof -
  from commitment_binding [OF eval_roll] obtain digest k secret key userNum where
    "[Committed ''Your roll'' ''hmac(165,5)'',
       Question 5, InvalidInput 5, Question 5, InvalidInput 5, Question 5,
       SecretNumber 5, SecretKey 0xA5, YouEntered 3, ResultLine 6 2]
        = transcript ''Your roll'' digest 6 k secret key userNum 2"
    "digest = hmac_sha3_256 rollWorld key (toString secret)"
    by (auto simp: start_def)
  with eval_roll show ?thesis by auto
qed

subsection \<open>The computer's die\<close>

lemma runExchanges_effect:
  "runExchanges w mx labels s = Some (rs, s') \<Longrightarrow>
   length rs = length labels \<and> (\<forall>r \<in> set rs. 0 \<le> r \<and> r < mx) \<and>
   (\<exists>out. console s' = console s @ out \<and> results out = rs \<and>
      keys_used s' = keys_used s + length labels \<and>
      draws_used s + length labels \<le> draws_used s' \<and>
      length (digests out) = length labels \<and>
      length labels \<le> questions out \<and>
      lines_read s' = lines_read s + questions out)"
proof (induction labels arbitrary: s rs)
  case Nil
  then show ?case by (intro conjI exI [of _ "[]"]) auto
next
  case (Cons label labels)
  from Cons.prems obtain r s1 rs1 where
    ex: "fairRandom w mx label s = Some (r, s1)"
    and run: "runExchanges w mx labels s1 = Some (rs1, s')"
    and rs: "rs = r # rs1"
    by (auto split: option.splits)
  from fairRandom_effect [OF ex] obtain out1 where
    e: "console s1 = console s @ out1" "keys_used s1 = keys_used s + 1"
       "draws_used s < draws_used s1" "lines_read s1 = lines_read s + questions out1"
       "results out1 = [r]" "length (digests out1) = 1" "1 \<le> questions out1"
    by blast
  from fairRandom_range [OF ex] have rr: "0 \<le> r" "r < mx" by simp_all
  from Cons.IH [OF run] obtain out where
    h: "length rs1 = length labels" "\<forall>r \<in> set rs1. 0 \<le> r \<and> r < mx"
       "console s' = console s1 @ out" "results out = rs1"
       "keys_used s' = keys_used s1 + length labels"
       "draws_used s1 + length labels \<le> draws_used s'"
       "length (digests out) = length labels"
       "length labels \<le> questions out"
       "lines_read s' = lines_read s1 + questions out"
    by blast
  have "console s' = console s @ (out1 @ out)" using e(1) h(3) by simp
  moreover have "results (out1 @ out) = rs" using e(5) h(4) rs by (simp add: results_append)
  moreover have "keys_used s' = keys_used s + length (label # labels)" using e(2) h(5) by simp
  moreover have "draws_used s + length (label # labels) \<le> draws_used s'"
    using e(3) h(6) by simp
  moreover have "length (digests (out1 @ out)) = length (label # labels)"
    using e(6) h(7) by (simp add: digests_append)
  moreover have "length (label # labels) \<le> questions (out1 @ out)"
    using e(7) h(8) by (simp add: questions_append)
  moreover have "lines_read s' = lines_read s + questions (out1 @ out)"
    using e(4) h(9) by (simp add: questions_append)
  moreover have "length rs = length (label # labels)" using rs h(1) by simp
  moreover have "\<forall>r \<in> set rs. 0 \<le> r \<and> r < mx" using rs rr h(2) by simp
  ultimately show ?case by blast
qed

lemma rerollCompDie_complete:
  "runExchanges w diceCount (replicate m ''Computer die choice (re-roll to avoid tie)'') s
     = Some (rs, s') \<Longrightarrow>
   compDieIndex # rs = replicate m userDieIndex @ [c] \<Longrightarrow> c \<noteq> userDieIndex \<Longrightarrow>
   rerollCompDie w diceCount userDieIndex compDieIndex s = Some (c, s')"
proof (induction m arbitrary: s rs compDieIndex)
  case 0
  then show ?case by (subst rerollCompDie.simps) simp
next
  case (Suc m)
  from Suc.prems(2) have c0: "compDieIndex = userDieIndex"
    and rs: "rs = replicate m userDieIndex @ [c]" by simp_all
  from Suc.prems(1) obtain r s1 rs1 where
    ex: "fairRandom w diceCount ''Computer die choice (re-roll to avoid tie)'' s = Some (r, s1)"
    and run: "runExchanges w diceCount
                (replicate m ''Computer die choice (re-roll to avoid tie)'') s1 = Some (rs1, s')"
    and rs1: "rs = r # rs1"
    by (auto split: option.splits)
  from rs rs1 have "r # rs1 = replicate m userDieIndex @ [c]" by simp
  from Suc.IH [OF run this Suc.prems(3)]
  have "rerollCompDie w diceCount userDieIndex r s1 = Some (c, s')" .
  with ex c0 show ?case by (subst rerollCompDie.simps) simp
qed

lemma rerollCompDie_sound:
  "rerollCompDie w diceCount userDieIndex compDieIndex s = Some y \<Longrightarrow>
   fst y \<noteq> userDieIndex \<and>
   (\<exists>m rs. runExchanges w diceCount
              (replicate m ''Computer die choice (re-roll to avoid tie)'') s = Some (rs, snd y) \<and>
           compDieIndex # rs = replicate m userDieIndex @ [fst y])"
proof (induction rule: rerollCompDie.raw_induct [rotated 1, consumes 1, case_names step])
  case (step f w diceCount userDieIndex compDieIndex s y)
  show ?case
  proof (cases "compDieIndex = userDieIndex")
    case False
    with step(2) have "y = (compDieIndex, s)" by simp
    with False show ?thesis
      by (intro conjI exI [of _ 0] exI [of _ "[]"]) simp_all
  next
    case True
    with step(2) obtain r s1 where
      ex: "fairRandom w diceCount ''Computer die choice (re-roll to avoid tie)'' s = Some (r, s1)"
      and rec: "f w diceCount userDieIndex r s1 = Some y"
      by (auto split: option.splits)
    from step(1) [OF rec] obtain m rs where
      h: "fst y \<noteq> userDieIndex"
         "runExchanges w diceCount
            (replicate m ''Computer die choice (re-roll to avoid tie)'') s1 = Some (rs, snd y)"
         "r # rs = replicate m userDieIndex @ [fst y]"
      by blast
    from ex h(2) have
      "runExchanges w diceCount
         (replicate (Suc m) ''Computer die choice (re-roll to avoid tie)'') s
         = Some (r # rs, snd y)"
      by simp
    moreover from True h(3) have
      "compDieIndex # r # rs = replicate (Suc m) userDieIndex @ [fst y]" by simp
    ultimately show ?thesis using h(1) by blast
  qed
qed

lemma chooseCompDie_iff:
  "chooseCompDie w diceCount userDieIndex s = Some (compDieIndex, s') \<longleftrightarrow>
     compDieIndex \<noteq> userDieIndex \<and>
     (\<exists>m. runExchanges w diceCount (dieChoiceLabels m) s
            = Some (replicate m userDieIndex @ [compDieIndex], s'))"
proof
  assume a: "chooseCompDie w diceCount userDieIndex s = Some (compDieIndex, s')"
  then obtain r s1 where
    ex: "fairRandom w diceCount ''Computer die choice'' s = Some (r, s1)"
    and rec: "rerollCompDie w diceCount userDieIndex r s1 = Some (compDieIndex, s')"
    by (auto simp: chooseCompDie_def split: option.splits)
  from rerollCompDie_sound [OF rec] obtain m rs where
    h: "compDieIndex \<noteq> userDieIndex"
       "runExchanges w diceCount
          (replicate m ''Computer die choice (re-roll to avoid tie)'') s1 = Some (rs, s')"
       "r # rs = replicate m userDieIndex @ [compDieIndex]"
    by auto
  from ex h(2,3) have "runExchanges w diceCount (dieChoiceLabels m) s
            = Some (replicate m userDieIndex @ [compDieIndex], s')"
    by (simp add: dieChoiceLabels_def)
  with h(1) show "compDieIndex \<noteq> userDieIndex \<and>
     (\<exists>m. runExchanges w diceCount (dieChoiceLabels m) s
            = Some (replicate m userDieIndex @ [compDieIndex], s'))" by blast
next
  assume "compDieIndex \<noteq> userDieIndex \<and>
     (\<exists>m. runExchanges w diceCount (dieChoiceLabels m) s
            = Some (replicate m userDieIndex @ [compDieIndex], s'))"
  then obtain m where ne: "compDieIndex \<noteq> userDieIndex"
    and run: "runExchanges w diceCount (dieChoiceLabels m) s
            = Some (replicate m userDieIndex @ [compDieIndex], s')" by blast
  from run obtain r s1 rs where
    ex: "fairRandom w diceCount ''Computer die choice'' s = Some (r, s1)"
    and run1: "runExchanges w diceCount
          (replicate m ''Computer die choice (re-roll to avoid tie)'') s1 = Some (rs, s')"
    and rs: "r # rs = replicate m userDieIndex @ [compDieIndex]"
    by (auto simp: dieChoiceLabels_def split: option.splits)
  from rerollCompDie_complete [OF run1 rs ne] ex
  show "chooseCompDie w diceCount userDieIndex s = Some (compDieIndex, s')"
    by (simp add: chooseCompDie_def)
qed

lemma rerollCompDie_collision:
  "fairRandom w diceCount ''Computer die choice (re-roll to avoid tie)'' s = Some (r, s1) \<Longrightarrow>
   rerollCompDie w diceCount userDieIndex userDieIndex s
     = rerollCompDie w diceCount userDieIndex r s1"
  by (subst rerollCompDie.simps) simp

lemma rerollCompDie_differs:
  "compDieIndex \<noteq> userDieIndex \<Longrightarrow>
   rerollCompDie w diceCount userDieIndex compDieIndex s = Some (compDieIndex, s)"
  by (subst rerollCompDie.simps) simp

text \<open>
  Claim C5. When an exchange for the computer's die gives the user's index, \<open>main\<close>
  runs \<open>fairRandom\<close> again, as a whole, and goes on until an exchange gives another
  index: \<open>chooseCompDie\<close> returns an index exactly when, for some \<open>m\<close>, \<open>m + 1\<close>
  exchanges in a row complete, the first \<open>m\<close> give the user's index and the last one
  gives that index, which differs from the user's. Each of the \<open>m + 1\<close> exchanges has
  its own key, at least one draw of its own, its own digest line and at least one
  prompt; the index used lies in \<open>[0, diceCount)\<close>.
\<close>

theorem chooseCompDie_fresh_exchange:
  "(chooseCompDie w diceCount userDieIndex s = Some (compDieIndex, s') \<longleftrightarrow>
      compDieIndex \<noteq> userDieIndex \<and>
      (\<exists>m. runExchanges w diceCount (dieChoiceLabels m) s
             = Some (replicate m userDieIndex @ [compDieIndex], s'))) \<and>
   (\<forall>m. runExchanges w diceCount (dieChoiceLabels m) s
           = Some (replicate m userDieIndex @ [compDieIndex], s') \<longrightarrow>
      0 \<le> compDieIndex \<and> compDieIndex < diceCount \<and>
      (\<exists>out. console s' = console s @ out \<and>
         results out = replicate m userDieIndex @ [compDieIndex] \<and>
         keys_used s' = keys_used s + Suc m \<and>
         draws_used s + Suc m \<le> draws_used s' \<and>
         length (digests out) = Suc m \<and>
         Suc m \<le> questions out \<and>
         lines_read s' = lines_read s + questions out))"
proof (intro conjI allI impI)
  show "chooseCompDie w diceCount userDieIndex s = Some (compDieIndex, s') \<longleftrightarrow>
      compDieIndex \<noteq> userDieIndex \<and>
      (\<exists>m. runExchanges w diceCount (dieChoiceLabels m) s
             = Some (replicate m userDieIndex @ [compDieIndex], s'))"
    by (rule chooseCompDie_iff)
next
  fix m
  assume run: "runExchanges w diceCount (dieChoiceLabels m) s
           = Some (replicate m userDieIndex @ [compDieIndex], s')"
  have len: "length (dieChoiceLabels m) = Suc m" by (simp add: dieChoiceLabels_def)
  from runExchanges_effect [OF run] obtain out where
    h: "\<forall>r \<in> set (replicate m userDieIndex @ [compDieIndex]). 0 \<le> r \<and> r < diceCount"
       "console s' = console s @ out"
       "results out = replicate m userDieIndex @ [compDieIndex]"
       "keys_used s' = keys_used s + Suc m"
       "draws_used s + Suc m \<le> draws_used s'"
       "length (digests out) = Suc m"
       "Suc m \<le> questions out"
       "lines_read s' = lines_read s + questions out"
    unfolding len by blast
  from h(1) show "0 \<le> compDieIndex" "compDieIndex < diceCount" by simp_all
  from h(2-8) show "\<exists>out. console s' = console s @ out \<and>
         results out = replicate m userDieIndex @ [compDieIndex] \<and>
         keys_used s' = keys_used s + Suc m \<and>
         draws_used s + Suc m \<le> draws_used s' \<and>
         length (digests out) = Suc m \<and>
         Suc m \<le> questions out \<and>
         lines_read s' = lines_read s + questions out"
    by blast
qed

lemma eval_collision:
  "runExchanges collisionWorld 3 (dieChoiceLabels 2) start
     = Some (replicate 2 2 @ [1],
         \<lparr>keys_used = 3, draws_used = 3, lines_read = 4,
          console =
            [Committed ''Computer die choice'' ''hmac(165,2)'', Question 2,
             SecretNumber 2, SecretKey 0xA5, YouEntered 0, ResultLine 3 2,
             Committed ''Computer die choice (re-roll to avoid tie)'' ''hmac(166,2)'',
             Question 2, InvalidInput 2, Question 2,
             SecretNumber 2, SecretKey 0xA6, YouEntered 0, ResultLine 3 2,
             Committed ''Computer die choice (re-roll to avoid tie)'' ''hmac(167,1)'',
             Question 2, SecretNumber 1, SecretKey 0xA7, YouEntered 0, ResultLine 3 1]\<rparr>)"
  by code_simp

theorem chooseCompDie_fresh_exchange_witness:
  "chooseCompDie collisionWorld 3 2 start
     = Some (1,
         \<lparr>keys_used = 3, draws_used = 3, lines_read = 4,
          console =
            [Committed ''Computer die choice'' ''hmac(165,2)'', Question 2,
             SecretNumber 2, SecretKey 0xA5, YouEntered 0, ResultLine 3 2,
             Committed ''Computer die choice (re-roll to avoid tie)'' ''hmac(166,2)'',
             Question 2, InvalidInput 2, Question 2,
             SecretNumber 2, SecretKey 0xA6, YouEntered 0, ResultLine 3 2,
             Committed ''Computer die choice (re-roll to avoid tie)'' ''hmac(167,1)'',
             Question 2, SecretNumber 1, SecretKey 0xA7, YouEntered 0, ResultLine 3 1]\<rparr>) \<and>
   (1::int) \<noteq> 2 \<and> (0::int) \<le> 1 \<and> (1::int) < 3"
proof -
  have ne: "(1::int) \<noteq> 2" by simp
  note t = chooseCompDie_fresh_exchange [of collisionWorld 3 2 start 1
      "\<lparr>keys_used = 3, draws_used = 3, lines_read = 4,
          console =
            [Committed ''Computer die choice'' ''hmac(165,2)'', Question 2,
             SecretNumber 2, SecretKey 0xA5, YouEntered 0, ResultLine 3 2,
             Committed ''Computer die choice (re-roll to avoid tie)'' ''hmac(166,2)'',
             Question 2, InvalidInput 2, Question 2,
             SecretNumber 2, SecretKey 0xA6, YouEntered 0, ResultLine 3 2,
             Committed ''Computer die choice (re-roll to avoid tie)'' ''hmac(167,1)'',
             Question 2, SecretNumber 1, SecretKey 0xA7, YouEntered 0, ResultLine 3 1]\<rparr>"]
  from t eval_collision ne show ?thesis by blast
qed

subsection \<open>The bound of an exchange\<close>

lemma fairRandom_nonpositive_max:
  assumes "mx \<le> 0"
  shows "fairRandom w mx label s = None"
proof (cases "fairRandom w mx label s")
  case None
  then show ?thesis .
next
  case (Some y)
  obtain r s' where "y = (r, s')" by (cases y)
  with Some have "fairRandom w mx label s = Some (r, s')" by simp
  from fairRandom_Some [OF this] obtain userNum where "0 \<le> userNum" "userNum < mx" by blast
  with assms show ?thesis by simp
qed

lemma fairRandom_Some_first:
  assumes "accepted mx (draw w s i)" and "validUserNum mx (answer w s k)"
  shows "\<exists>r s'. fairRandom w mx label s = Some (r, s') \<and> 0 \<le> r \<and> r < mx"
proof -
  from fairRandom_returns [OF assms] obtain r s' where
    f: "fairRandom w mx label s = Some (r, s')" by force
  with fairRandom_range [OF f] show ?thesis by blast
qed

lemma askUserNum_nonpositive_max:
  assumes "mx \<le> 0"
  shows "askUserNum w mx s = None"
proof (cases "askUserNum w mx s")
  case None
  then show ?thesis .
next
  case (Some y)
  from askUserNum_Some [OF this] obtain n where "0 \<le> n" "n < mx" by blast
  with assms show ?thesis by simp
qed

lemma cutoff_far_negative: "mx \<le> - (2 ^ 32) \<Longrightarrow> cutoff mx = 0"
  by (simp add: cutoff_def js_rem_def)

lemma cutoff_near_negative: "- (2 ^ 32) < mx \<Longrightarrow> mx < 0 \<Longrightarrow> 0 < cutoff mx"
proof -
  assume a: "- (2 ^ 32) < mx" "mx < 0"
  then have m: "0 < - mx" "- mx \<le> 0xFFFFFFFF" by simp_all
  from m(1) have "(0xFFFFFFFF :: int) mod (- mx) < - mx" by (rule pos_mod_bound)
  with m(2) have "(0xFFFFFFFF :: int) mod (- mx) < 0xFFFFFFFF" by linarith
  with a show ?thesis by (simp add: cutoff_def js_rem_def)
qed

lemma secureRandomInt_no_accept:
  assumes "mx = 0 \<or> mx \<le> - (2 ^ 32)"
  shows "secureRandomInt w mx s = None"
proof (cases "secureRandomInt w mx s")
  case None
  then show ?thesis .
next
  case (Some y)
  from secureRandomInt_Some [OF this] obtain k where k: "accepted mx (draw w s k)" by blast
  from assms show ?thesis
  proof
    assume "mx = 0"
    with k show ?thesis by (simp add: accepted_def)
  next
    assume "mx \<le> - (2 ^ 32)"
    with k draw_range [of w s k] show ?thesis by (simp add: accepted_def cutoff_far_negative)
  qed
qed

lemma eval_one_draw: "draw oneWorld start 0 = 17"
  by code_simp
lemma eval_one_answer: "answer oneWorld start 0 = Some 0"
  by code_simp

text \<open>
  Claim C8, as stated, fails: \<open>fairRandom\<close> has no check of \<open>max\<close>, and with
  \<open>max = 1\<close> an exchange commits to the secret \<open>0\<close> and returns the result \<open>0\<close>.
\<close>

theorem fairRandom_max_one_counterexample:
  "fairRandom oneWorld 1 ''First move'' start
     = Some (0, \<lparr>keys_used = 1, draws_used = 1, lines_read = 1,
                 console = [Committed ''First move'' ''hmac(165,0)'', Question 0,
                            SecretNumber 0, SecretKey 0xA5, YouEntered 0, ResultLine 1 0]\<rparr>)"
  by code_simp

text \<open>
  Claim C8, amended. \<open>fairRandom\<close> does not check \<open>max\<close>. For every integer
  \<open>max \<le> 0\<close> an exchange never returns a result, and the loop that asks for the
  user's number never ends, since no answer passes the validation. For \<open>max = 0\<close> and
  for \<open>max \<le> -2^32\<close> no draw is accepted, so that the sampler never returns and not
  even a commitment is produced; for \<open>-2^32 < max < 0\<close> the cutoff is positive and
  the sampler returns as soon as a draw is below it. For \<open>max = 1\<close> the exchange is not
  rejected: it returns \<open>0\<close> as soon as one draw is not \<open>0xFFFFFFFF\<close> and one answer
  reads as \<open>0\<close>. Here \<open>max\<close> is an integer, as at every call of \<open>fairRandom\<close>;
  a \<open>max\<close> that is not an integer is floating-point arithmetic, which the embedding
  does not cover.
\<close>

theorem fairRandom_max_unchecked:
  "(mx \<le> 0 \<longrightarrow> fairRandom w mx label s = None \<and> askUserNum w mx s = None) \<and>
   (mx = 0 \<or> mx \<le> - (2 ^ 32) \<longrightarrow> secureRandomInt w mx s = None) \<and>
   (- (2 ^ 32) < mx \<and> mx < 0 \<longrightarrow>
      0 < cutoff mx \<and>
      (draw w s i < cutoff mx \<longrightarrow> (\<exists>y. secureRandomInt w mx s = Some y))) \<and>
   (draw w s i < 0xFFFFFFFF \<and> answer w s k = Some 0 \<longrightarrow>
      (\<exists>s'. fairRandom w 1 label s = Some (0, s')))"
proof (intro conjI impI)
  show "fairRandom w mx label s = None" if "mx \<le> 0"
    using that by (rule fairRandom_nonpositive_max)
  show "askUserNum w mx s = None" if "mx \<le> 0"
    using that by (rule askUserNum_nonpositive_max)
  show "secureRandomInt w mx s = None" if "mx = 0 \<or> mx \<le> - (2 ^ 32)"
    using that by (rule secureRandomInt_no_accept)
  show "0 < cutoff mx" if "- (2 ^ 32) < mx \<and> mx < 0"
    using that by (simp add: cutoff_near_negative)
  show "\<exists>y. secureRandomInt w mx s = Some y"
    if "- (2 ^ 32) < mx \<and> mx < 0" and "draw w s i < cutoff mx"
  proof -
    from that have "accepted mx (draw w s i)" by (simp add: accepted_def)
    then show ?thesis by (rule secureRandomInt_returns)
  qed
  assume a: "draw w s i < 0xFFFFFFFF \<and> answer w s k = Some 0"
  then have "accepted 1 (draw w s i)" by (simp add: accepted_def cutoff_def js_rem_def)
  moreover from a have "validUserNum 1 (answer w s k)" by (simp add: validUserNum_def)
  ultimately obtain r s' where "fairRandom w 1 label s = Some (r, s')" "0 \<le> r" "r < 1"
    using fairRandom_Some_first by blast
  then show "\<exists>s'. fairRandom w 1 label s = Some (0, s')" by auto
qed

lemma cutoff_minus_3: "cutoff (-3) = 4294967295"
  by (simp add: cutoff_def js_rem_def)

theorem fairRandom_max_unchecked_witness:
  "fairRandom oneWorld (-3) ''First move'' start = None \<and>
   askUserNum oneWorld (-3) start = None \<and>
   (\<exists>y. secureRandomInt oneWorld (-3) start = Some y) \<and>
   secureRandomInt oneWorld 0 start = None \<and>
   secureRandomInt oneWorld (- (2 ^ 32)) start = None \<and>
   (\<exists>s'. fairRandom oneWorld 1 ''First move'' start = Some (0, s'))"
proof -
  note a = fairRandom_max_unchecked [of "-3" oneWorld "''First move''" start 0 0]
  note b = fairRandom_max_unchecked [of 0 oneWorld "''First move''" start 0 0]
  note c = fairRandom_max_unchecked [of "- (2 ^ 32)" oneWorld "''First move''" start 0 0]
  from a have "fairRandom oneWorld (-3) ''First move'' start = None"
    "askUserNum oneWorld (-3) start = None" by simp_all
  moreover from a eval_one_draw cutoff_minus_3
  have "\<exists>y. secureRandomInt oneWorld (-3) start = Some y" by simp
  moreover from b have "secureRandomInt oneWorld 0 start = None" by simp
  moreover from c have "secureRandomInt oneWorld (- (2 ^ 32)) start = None" by simp
  moreover from a eval_one_draw eval_one_answer
  have "\<exists>s'. fairRandom oneWorld 1 ''First move'' start = Some (0, s')" by simp
  ultimately show ?thesis by blast
qed

lemma invalid_answers_are_retried:
  assumes "fairRandom w mx label s = Some (result, s')"
  shows "\<exists>k userNum out.
           (\<forall>j<k. \<not> validUserNum mx (answer w s j)) \<and>
           answer w s k = Some userNum \<and> 0 \<le> userNum \<and> userNum < mx \<and>
           lines_read s' = lines_read s + k + 1 \<and>
           keys_used s' = keys_used s + 1 \<and>
           console s' = console s @ out \<and> length (digests out) = 1 \<and>
           questions out = Suc k"
proof -
  from fairRandom_Some [OF assms] obtain i k compNum userNum where
    f: "\<forall>j<k. \<not> validUserNum mx (answer w s j)"
       "answer w s k = Some userNum" "0 \<le> userNum" "userNum < mx"
       "s' = s\<lparr>keys_used := keys_used s + 1,
                    draws_used := draws_used s + i + 1,
                    lines_read := lines_read s + k + 1,
                    console := console s @
                      transcript label
                        (hmacSha3 w (randomKeys w (keys_used s)) (toString compNum))
                        mx k compNum (randomKeys w (keys_used s)) userNum result\<rparr>"
    by blast
  from f(5) have
    "lines_read s' = lines_read s + k + 1" "keys_used s' = keys_used s + 1"
    "console s' = console s @ transcript label
                        (hmacSha3 w (randomKeys w (keys_used s)) (toString compNum))
                        mx k compNum (randomKeys w (keys_used s)) userNum result"
    by simp_all
  with f(1-4) show ?thesis
    using digests_transcript questions_transcript
    by (metis length_Cons list.size(3) One_nat_def)
qed

text \<open>
  Claim C7. A counterparty answer that is not an integer must be rejected. The loop
  accepts the answer \<open>1.5\<close>: \<open>parseInt\<close> stops at the point and reads \<open>1\<close>, which
  is then combined with the secret. What holds is \<open>invalid_answers_are_retried\<close>:
  answers that \<open>parseInt\<close> reads as \<open>NaN\<close> or out of range are asked again within
  the same commitment, and the value combined lies in \<open>[0, max)\<close>.
\<close>

theorem fairRandom_accepts_fraction:
  "\<not> isIntegerToken ''1.5'' \<and>
   fairRandom fractionWorld 6 ''Your roll'' start
     = Some (0, \<lparr>keys_used = 1, draws_used = 1, lines_read = 1,
                 console = [Committed ''Your roll'' ''hmac(165,5)'', Question 5,
                            SecretNumber 5, SecretKey 0xA5, YouEntered 1, ResultLine 6 0]\<rparr>)"
  by code_simp

subsection \<open>Start-up validation\<close>

lemma those_no_NaN: "\<not> list_ex isNaN faces \<Longrightarrow> \<exists>die. those faces = Some die \<and> length die = length faces"
  by (induction faces) (auto simp: isNaN_def split: option.splits)

lemma parseDie_Inl_iff:
  "(\<exists>e. parseDie arg = Inl e) \<longleftrightarrow>
     length (split_comma arg) \<noteq> 6 \<or> (\<exists>tok \<in> set (split_comma arg). parseInt (trim tok) = None)"
proof -
  let ?faces = "parseFaces arg"
  have len: "length ?faces = length (split_comma arg)" by (simp add: parseFaces_def)
  have nan: "list_ex isNaN ?faces \<longleftrightarrow> (\<exists>tok \<in> set (split_comma arg). parseInt (trim tok) = None)"
    unfolding parseFaces_def list_ex_iff isNaN_def by (force simp: image_iff)
  show ?thesis
  proof (cases "length ?faces \<noteq> DICE_FACES \<or> list_ex isNaN ?faces")
    case True
    then have "parseDie arg = Inl BadDie" by (simp add: parseDie_def Let_def)
    with True len nan show ?thesis by (auto simp: DICE_FACES_def)
  next
    case False
    then obtain die where "those ?faces = Some die" using those_no_NaN by blast
    with False have "parseDie arg = Inr die" by (simp add: parseDie_def Let_def)
    with False len nan show ?thesis by (auto simp: DICE_FACES_def)
  qed
qed

lemma parseDie_error: "parseDie arg = Inl e \<Longrightarrow> e = BadDie"
  by (auto simp: parseDie_def Let_def split: if_splits option.splits)

lemma parseDie_Inr: "parseDie arg = Inr die \<Longrightarrow> length die = 6"
proof -
  assume a: "parseDie arg = Inr die"
  then have ok: "length (parseFaces arg) = DICE_FACES" "\<not> list_ex isNaN (parseFaces arg)"
    by (auto simp: parseDie_def Let_def split: if_splits)
  from those_no_NaN [OF ok(2)] obtain d where "those (parseFaces arg) = Some d" "length d = length (parseFaces arg)"
    by blast
  with a ok show ?thesis by (simp add: parseDie_def Let_def DICE_FACES_def)
qed

lemma parseDice_Inl_iff:
  "(\<exists>e. parseDice args dice = Inl e) \<longleftrightarrow> (\<exists>arg \<in> set args. \<exists>e. parseDie arg = Inl e)"
proof (induction args arbitrary: dice)
  case Nil
  then show ?case by simp
next
  case (Cons arg args)
  show ?case
  proof (cases "parseDie arg")
    case (Inl e)
    then show ?thesis by auto
  next
    case (Inr faces)
    with Cons [of "dice @ [faces]"] show ?thesis by auto
  qed
qed

lemma parseDice_Inr:
  "parseDice args dice = Inr ds \<Longrightarrow>
   length ds = length dice + length args \<and> (\<forall>d \<in> set ds. d \<in> set dice \<or> length d = 6)"
proof (induction args arbitrary: dice)
  case Nil
  then show ?case by auto
next
  case (Cons arg args)
  from Cons.prems obtain faces where f: "parseDie arg = Inr faces"
    and r: "parseDice args (dice @ [faces]) = Inr ds"
    by (auto split: sum.splits)
  from Cons.IH [OF r] parseDie_Inr [OF f] show ?case by auto
qed

lemma startup_fails_iff:
  "(\<exists>e. startup args = Inl e) \<longleftrightarrow>
     length args < 3 \<or>
     (\<exists>arg \<in> set args. length (split_comma arg) \<noteq> 6 \<or>
        (\<exists>tok \<in> set (split_comma arg). parseInt (trim tok) = None))"
  by (auto simp: startup_def parseDice_Inl_iff parseDie_Inl_iff)

lemma startup_Inr:
  "startup args = Inr dice \<Longrightarrow> 3 \<le> length dice \<and> length dice = length args \<and> (\<forall>d \<in> set dice. length d = 6)"
  using parseDice_Inr [of args "[]" dice] by (auto simp: startup_def split: if_splits)

lemma stripSign_cases:
  "stripSign S = (sign, R) \<Longrightarrow> R \<noteq> [] \<Longrightarrow> list_all isDigit R \<Longrightarrow>
   S \<noteq> [] \<and> \<not> isWhiteSpace (hd S)"
  by (cases S) (auto simp: stripSign_def isWhiteSpace_def isDigit_def split: if_splits)

lemma integer_token_parses:
  assumes "isIntegerToken tok"
  shows "\<exists>n. parseInt (trim tok) = Some n"
proof -
  obtain sign R where s: "stripSign (trim tok) = (sign, R)" by (cases "stripSign (trim tok)")
  with assms have R: "R \<noteq> []" "list_all isDigit R" by (simp_all add: isIntegerToken_def)
  from stripSign_cases [OF s R] have "dropWhile isWhiteSpace (trim tok) = trim tok"
    by (cases "trim tok") auto
  moreover from R have "takeWhile isDigit R = R" by (simp add: list_all_iff)
  ultimately have "parseInt (trim tok) =
      (if R = [] then None else Some (sign * foldl (\<lambda>n c. 10 * n + digitValue c) 0 R))"
    by (simp only: parseInt_def s prod.case Let_def)
  with R(1) show ?thesis by simp
qed

lemma integer_tokens_examples:
  "isIntegerToken '' -12 '' \<and> isIntegerToken ''0'' \<and>
   isIntegerToken ''99999999999999999999999999''"
  by code_simp

lemma startup_accepts_integers:
  "startup [''1,2,3,4,5,6'', ''1,2,3,4,5,6'', '' -1 , 0,9007199254740991,4,5 ,6'']
     = Inr [[1,2,3,4,5,6], [1,2,3,4,5,6], [-1,0,9007199254740991,4,5,6]]"
  by code_simp

lemma startup_accepts_long_token:
  "\<exists>dice. startup [''1,2,3,4,5,6'', ''1,2,3,4,5,6'',
                       ''1,2,3,4,5,99999999999999999999999999''] = Inr dice"
proof -
  have "\<not> (\<exists>e. startup [''1,2,3,4,5,6'', ''1,2,3,4,5,6'',
                       ''1,2,3,4,5,99999999999999999999999999''] = Inl e)"
    unfolding startup_fails_iff by code_simp
  then show ?thesis
    by (cases "startup [''1,2,3,4,5,6'', ''1,2,3,4,5,6'',
                       ''1,2,3,4,5,99999999999999999999999999'']") auto
qed

lemma startup_rejects:
  "startup [''1,2,3,4,5,6'', ''1,2,3,4,5,6''] = Inl TooFewDice \<and>
   startup [''1,2,3,4,5,6'', ''1,2,3,4,5,6'', ''1,2,3,4,5''] = Inl BadDie \<and>
   startup [''1,2,3,4,5,6'', ''1,2,3,4,5,6'', ''1,2,3,4,5,6,7''] = Inl BadDie \<and>
   startup [''1,2,3,4,5,6'', ''1,2,3,4,5,6'', ''1,2,3,4,5,x''] = Inl BadDie"
  by code_simp

text \<open>
  Claim C6. Start-up must fail exactly when fewer than three dice are given, or a die
  has not exactly six faces, or a face token is not an integer. The code fails in the
  first two cases and accepts every integer token, negative, zero or large
  (\<open>startup_fails_iff\<close>, \<open>integer_token_parses\<close>), but it also accepts the die
  \<open>1.5,2,3,4,5,6\<close>, whose first token is not an integer: \<open>parseInt\<close> reads \<open>1\<close>.
\<close>

theorem startup_accepts_fraction:
  "\<not> isIntegerToken ''1.5'' \<and>
   startup [''1.5,2,3,4,5,6'', ''1,2,3,4,5,6'', ''1,2,3,4,5,6'']
     = Inr [[1,2,3,4,5,6], [1,2,3,4,5,6], [1,2,3,4,5,6]]"
  by code_simp

end
